theory Spec2Isabelle
  imports Complex_Main "HOL-Library.Product_Lexorder"
begin

section \<open>Board and rules engine (main.py, class Othello)\<close>

text \<open>
  The board is a numpy array of shape (8, 8) holding 0 (empty), 1 (black) and -1 (white).
  It is modelled as a total function from (row, column) to the cell value. Every read and
  write of the source is guarded by \<open>0 <= r < 8 and 0 <= c < 8\<close> (or ranges over
  \<open>range(8)\<close>), so only the cells accepted by \<open>inb\<close> are ever touched.
\<close>

type_synonym cell = "int \<times> int"
type_synonym grid = "cell \<Rightarrow> int"

record game =
  board :: grid
  current_player :: int

definition inb :: "cell \<Rightarrow> bool" where
  "inb rc = (0 \<le> fst rc \<and> fst rc < 8 \<and> 0 \<le> snd rc \<and> snd rc < 8)"

text \<open>The eight directions, as the pairs (dr, dc) of the source.\<close>

datatype direction = NW | N | NE | W | E | SW | S | SE

fun dr :: "direction \<Rightarrow> int" where
  "dr NW = -1" | "dr N = -1" | "dr NE = -1"
| "dr W = 0" | "dr E = 0"
| "dr SW = 1" | "dr S = 1" | "dr SE = 1"

fun dc :: "direction \<Rightarrow> int" where
  "dc NW = -1" | "dc N = 0" | "dc NE = 1"
| "dc W = -1" | "dc E = 1"
| "dc SW = -1" | "dc S = 0" | "dc SE = 1"

text \<open>\<open>[(-1,-1), (-1,0), (-1,1), (0,-1), (0,1), (1,-1), (1,0), (1,1)]\<close>\<close>

definition directions :: "direction list" where
  "directions = [NW, N, NE, W, E, SW, S, SE]"

definition step :: "direction \<Rightarrow> cell \<Rightarrow> cell" where
  "step d rc = (fst rc + dr d, snd rc + dc d)"

text \<open>Distance from a cell to the edge it walks towards; the loops below end with it.\<close>

definition to_edge :: "direction \<Rightarrow> cell \<Rightarrow> nat" where
  "to_edge d rc =
     (if dr d = 1 then nat (8 - fst rc)
      else if dr d = -1 then nat (fst rc + 1)
      else if dc d = 1 then nat (8 - snd rc)
      else nat (snd rc + 1))"

text \<open>
  The initial position of \<open>Othello.__init__\<close> (fixed opening), black to move.
\<close>

definition empty_grid :: grid where
  "empty_grid = (\<lambda>_. 0)"

definition initial_board :: grid where
  "initial_board = empty_grid((3,3) := -1, (4,4) := -1, (3,4) := 1, (4,3) := 1)"

definition initial_game :: game where
  "initial_game = \<lparr> board = initial_board, current_player = 1 \<rparr>"

text \<open>\<open>Othello.copy\<close>: a new object with a copy of the grid and the same side to move.\<close>

definition copy :: "game \<Rightarrow> game" where
  "copy g = \<lparr> board = board g, current_player = current_player g \<rparr>"

subsection \<open>valid_moves\<close>

text \<open>
  The inner \<open>while\<close> loop of \<open>valid_moves\<close>, started at the neighbour of a disk of
  \<open>player\<close>: it walks over disks of the opponent and yields the first empty cell after
  at least one of them.
\<close>

function scan :: "grid \<Rightarrow> int \<Rightarrow> direction \<Rightarrow> cell \<Rightarrow> bool \<Rightarrow> cell option" where
  "scan b player d n found_opponent =
     (if inb n then
        (if b n = - player then scan b player d (step d n) True
         else if b n = 0 \<and> found_opponent then Some n
         else None)
      else None)"
  by pat_completeness auto
termination
  by (relation "measure (\<lambda>(b, player, d, n, found). to_edge d n)")
     (auto simp: inb_def step_def to_edge_def split: if_splits, (case_tac d; simp)+)

declare scan.simps [simp del]

text \<open>
  The three nested \<open>for\<close> loops; the moves are collected in the order the loops find
  them, and \<open>valid_moves\<close> is the set the source returns.
\<close>

definition scan_dirs :: "grid \<Rightarrow> int \<Rightarrow> cell \<Rightarrow> cell list" where
  "scan_dirs b player rc =
     concat (map (\<lambda>d. case scan b player d (step d rc) False of
                         Some m \<Rightarrow> [m] | None \<Rightarrow> []) directions)"

definition valid_moves_found :: "grid \<Rightarrow> int \<Rightarrow> cell list" where
  "valid_moves_found b player =
     concat (map (\<lambda>r. concat (map (\<lambda>c.
        if b (r, c) \<noteq> player then [] else scan_dirs b player (r, c)) [0..7])) [0..7])"

definition valid_moves :: "grid \<Rightarrow> int \<Rightarrow> cell set" where
  "valid_moves b player = set (valid_moves_found b player)"

subsection \<open>apply_move\<close>

text \<open>
  The \<open>while\<close> loop of \<open>apply_move\<close> in one direction: collect the opponent's disks;
  on reaching a disk of \<open>player\<close> flip the collected ones, otherwise change nothing.
\<close>

function walk :: "grid \<Rightarrow> int \<Rightarrow> direction \<Rightarrow> cell \<Rightarrow> cell list \<Rightarrow> grid" where
  "walk b player d n pieces_to_flip =
     (if inb n then
        (if b n = - player then walk b player d (step d n) (pieces_to_flip @ [n])
         else if b n = player then fold (\<lambda>f b'. b'(f := player)) pieces_to_flip b
         else b)
      else b)"
  by pat_completeness auto
termination
  by (relation "measure (\<lambda>(b, player, d, n, pieces). to_edge d n)")
     (auto simp: inb_def step_def to_edge_def split: if_splits, (case_tac d; simp)+)

declare walk.simps [simp del]

text \<open>
  \<open>apply_move\<close> returns the success flag; the board it leaves behind is the second
  component.
\<close>

definition apply_move :: "grid \<Rightarrow> cell \<Rightarrow> int \<Rightarrow> bool \<times> grid" where
  "apply_move b move player =
     (if move \<notin> valid_moves b player then (False, b)
      else (True, fold (\<lambda>d b'. walk b' player d (step d move) []) directions
                       (b(move := player))))"

definition is_game_over :: "grid \<Rightarrow> bool" where
  "is_game_over b = (\<not> (valid_moves b 1 \<noteq> {} \<or> valid_moves b (-1) \<noteq> {}))"

text \<open>
  \<open>np.sum(self.board == v)\<close>: the number of cells of the 8 by 8 grid that hold \<open>v\<close>.
\<close>

definition count_disks :: "grid \<Rightarrow> int \<Rightarrow> nat" where
  "count_disks b v =
     sum_list (map (\<lambda>r. sum_list (map (\<lambda>c. if b (r, c) = v then 1 else 0) [0..7])) [0..7])"

section \<open>Evaluators (heuristics.py)\<close>

text \<open>
  \<open>coin_parity_heuristic\<close>. The counts are integers and \<open>/\<close> is the true division of
  Python, here the division of the reals.
\<close>

definition coin_parity_heuristic :: "game \<Rightarrow> int \<Rightarrow> real" where
  "coin_parity_heuristic g player =
     (let player_count = int (count_disks (board g) player);
          opponent_count = int (count_disks (board g) (- player))
      in if player_count + opponent_count = 0 then 0
         else 100 * real_of_int (player_count - opponent_count)
                / real_of_int (player_count + opponent_count))"

section \<open>Minimax search with alpha-beta pruning (minmax.py)\<close>

text \<open>
  Scores are Python floats: the values of the evaluators are finite numbers, modelled as
  reals, and the search starts from the sentinels \<open>float('-inf')\<close> and \<open>float('inf')\<close>.
  Only comparisons, \<open>max\<close> and \<open>min\<close> are applied to scores.
\<close>

datatype score = NegInf | Fin real | PosInf

instantiation score :: linorder
begin

fun less_eq_score :: "score \<Rightarrow> score \<Rightarrow> bool" where
  "less_eq_score NegInf _ = True"
| "less_eq_score _ PosInf = True"
| "less_eq_score (Fin a) (Fin b) = (a \<le> b)"
| "less_eq_score (Fin a) NegInf = False"
| "less_eq_score PosInf NegInf = False"
| "less_eq_score PosInf (Fin b) = False"

definition less_score :: "score \<Rightarrow> score \<Rightarrow> bool" where
  "less_score x y = (x \<le> y \<and> \<not> y \<le> x)"

instance
proof
  fix x y z :: score
  show "(x < y) = (x \<le> y \<and> \<not> y \<le> x)" by (simp add: less_score_def)
  show "x \<le> x" by (cases x) simp_all
  show "x \<le> y \<Longrightarrow> y \<le> z \<Longrightarrow> x \<le> z" by (cases x; cases y; cases z) simp_all
  show "x \<le> y \<Longrightarrow> y \<le> x \<Longrightarrow> x = y" by (cases x; cases y) simp_all
  show "x \<le> y \<or> y \<le> x" by (cases x; cases y) auto
qed

end

text \<open>
  \<open>MinMaxPlayer\<close>: the colour of the agent, the configured depth (a natural number) and
  the evaluator, a function of the game and the player.
\<close>

record minmax_player =
  color :: int
  depth :: nat
  heuristic_function :: "game \<Rightarrow> int \<Rightarrow> real"

text \<open>
  \<open>new_game.apply_move(move, player)\<close> on a game object: the flag is dropped and the
  board of the object is the board \<open>apply_move\<close> leaves.
\<close>

definition apply_move_game :: "game \<Rightarrow> cell \<Rightarrow> int \<Rightarrow> game" where
  "apply_move_game g move player = g\<lparr>board := snd (apply_move (board g) move player)\<rparr>"

text \<open>
  \<open>list(game.valid_moves(...))\<close> puts the set of moves in the iteration order of a
  Python set, which the source does not fix; the order is the parameter \<open>to_list\<close>.
  \<open>is_list_of\<close> says that \<open>to_list\<close> lists each finite set, every element once.
\<close>

definition is_list_of :: "(cell set \<Rightarrow> cell list) \<Rightarrow> bool" where
  "is_list_of to_list = (\<forall>A. finite A \<longrightarrow> set (to_list A) = A \<and> distinct (to_list A))"

text \<open>
  \<open>MinMaxPlayer.minimax\<close>. The two \<open>for\<close> loops are \<open>max_loop\<close> and \<open>min_loop\<close>;
  they carry the depth of the recursive calls (\<open>depth - 1\<close>), the remaining moves and the
  loop variables \<open>alpha\<close>/\<open>beta\<close>, \<open>max_eval\<close>/\<open>min_eval\<close> and \<open>best_move\<close>. The first
  branch of a loop step is the \<open>break\<close>.
\<close>

function minimax :: "(cell set \<Rightarrow> cell list) \<Rightarrow> minmax_player \<Rightarrow> game \<Rightarrow> nat \<Rightarrow>
    score \<Rightarrow> score \<Rightarrow> bool \<Rightarrow> score \<times> cell option"
  and max_loop :: "(cell set \<Rightarrow> cell list) \<Rightarrow> minmax_player \<Rightarrow> game \<Rightarrow> nat \<Rightarrow> cell list \<Rightarrow>
    score \<Rightarrow> score \<Rightarrow> score \<Rightarrow> cell option \<Rightarrow> score \<times> cell option"
  and min_loop :: "(cell set \<Rightarrow> cell list) \<Rightarrow> minmax_player \<Rightarrow> game \<Rightarrow> nat \<Rightarrow> cell list \<Rightarrow>
    score \<Rightarrow> score \<Rightarrow> score \<Rightarrow> cell option \<Rightarrow> score \<times> cell option"
where
  "minimax to_list self g dep alpha beta maximizing =
     (if dep = 0 \<or> is_game_over (board g)
      then (Fin (heuristic_function self g (color self)), None)
      else if to_list (valid_moves (board g) (if maximizing then color self else - color self)) = []
      then (fst (minimax to_list self g (dep - 1) alpha beta (\<not> maximizing)), None)
      else if maximizing
      then max_loop to_list self g (dep - 1)
             (to_list (valid_moves (board g) (color self))) alpha beta NegInf None
      else min_loop to_list self g (dep - 1)
             (to_list (valid_moves (board g) (- color self))) alpha beta PosInf None)"
| "max_loop to_list self g dep [] alpha beta max_eval best_move = (max_eval, best_move)"
| "max_loop to_list self g dep (move # rest) alpha beta max_eval best_move =
     (let eval_score = fst (minimax to_list self (apply_move_game (copy g) move (color self))
                              dep alpha beta False)
      in if max alpha eval_score \<ge> beta
         then (if eval_score > max_eval then (eval_score, Some move) else (max_eval, best_move))
         else max_loop to_list self g dep rest (max alpha eval_score) beta
                (if eval_score > max_eval then eval_score else max_eval)
                (if eval_score > max_eval then Some move else best_move))"
| "min_loop to_list self g dep [] alpha beta min_eval best_move = (min_eval, best_move)"
| "min_loop to_list self g dep (move # rest) alpha beta min_eval best_move =
     (let eval_score = fst (minimax to_list self (apply_move_game (copy g) move (- color self))
                              dep alpha beta True)
      in if min beta eval_score \<le> alpha
         then (if eval_score < min_eval then (eval_score, Some move) else (min_eval, best_move))
         else min_loop to_list self g dep rest alpha (min beta eval_score)
                (if eval_score < min_eval then eval_score else min_eval)
                (if eval_score < min_eval then Some move else best_move))"
  by pat_completeness auto
termination
  by (relation "inv_image (less_than <*lex*> less_than) (\<lambda>x. case x of
         Inl (_, _, _, dep, _) \<Rightarrow> (dep, 0)
       | Inr (Inl (_, _, _, dep, ms, _)) \<Rightarrow> (dep, Suc (length ms))
       | Inr (Inr (_, _, _, dep, ms, _)) \<Rightarrow> (dep, Suc (length ms)))")
     auto

definition get_move :: "(cell set \<Rightarrow> cell list) \<Rightarrow> minmax_player \<Rightarrow> game \<Rightarrow> cell option" where
  "get_move to_list self g = snd (minimax to_list self g (depth self) NegInf PosInf True)"

text \<open>
  The same recursion with the two \<open>break\<close> statements removed: every move of a node is
  searched. \<open>alpha\<close> and \<open>beta\<close> are still updated and passed on, and have no effect.
\<close>

function minimax_full :: "(cell set \<Rightarrow> cell list) \<Rightarrow> minmax_player \<Rightarrow> game \<Rightarrow> nat \<Rightarrow>
    score \<Rightarrow> score \<Rightarrow> bool \<Rightarrow> score \<times> cell option"
  and max_loop_full :: "(cell set \<Rightarrow> cell list) \<Rightarrow> minmax_player \<Rightarrow> game \<Rightarrow> nat \<Rightarrow> cell list \<Rightarrow>
    score \<Rightarrow> score \<Rightarrow> score \<Rightarrow> cell option \<Rightarrow> score \<times> cell option"
  and min_loop_full :: "(cell set \<Rightarrow> cell list) \<Rightarrow> minmax_player \<Rightarrow> game \<Rightarrow> nat \<Rightarrow> cell list \<Rightarrow>
    score \<Rightarrow> score \<Rightarrow> score \<Rightarrow> cell option \<Rightarrow> score \<times> cell option"
where
  "minimax_full to_list self g dep alpha beta maximizing =
     (if dep = 0 \<or> is_game_over (board g)
      then (Fin (heuristic_function self g (color self)), None)
      else if to_list (valid_moves (board g) (if maximizing then color self else - color self)) = []
      then (fst (minimax_full to_list self g (dep - 1) alpha beta (\<not> maximizing)), None)
      else if maximizing
      then max_loop_full to_list self g (dep - 1)
             (to_list (valid_moves (board g) (color self))) alpha beta NegInf None
      else min_loop_full to_list self g (dep - 1)
             (to_list (valid_moves (board g) (- color self))) alpha beta PosInf None)"
| "max_loop_full to_list self g dep [] alpha beta max_eval best_move = (max_eval, best_move)"
| "max_loop_full to_list self g dep (move # rest) alpha beta max_eval best_move =
     (let eval_score = fst (minimax_full to_list self (apply_move_game (copy g) move (color self))
                              dep alpha beta False)
      in max_loop_full to_list self g dep rest (max alpha eval_score) beta
                (if eval_score > max_eval then eval_score else max_eval)
                (if eval_score > max_eval then Some move else best_move))"
| "min_loop_full to_list self g dep [] alpha beta min_eval best_move = (min_eval, best_move)"
| "min_loop_full to_list self g dep (move # rest) alpha beta min_eval best_move =
     (let eval_score = fst (minimax_full to_list self (apply_move_game (copy g) move (- color self))
                              dep alpha beta True)
      in min_loop_full to_list self g dep rest alpha (min beta eval_score)
                (if eval_score < min_eval then eval_score else min_eval)
                (if eval_score < min_eval then Some move else best_move))"
  by pat_completeness auto
termination
  by (relation "inv_image (less_than <*lex*> less_than) (\<lambda>x. case x of
         Inl (_, _, _, dep, _) \<Rightarrow> (dep, 0)
       | Inr (Inl (_, _, _, dep, ms, _)) \<Rightarrow> (dep, Suc (length ms))
       | Inr (Inr (_, _, _, dep, ms, _)) \<Rightarrow> (dep, Suc (length ms)))")
     auto

section \<open>The standalone helpers of utils.py\<close>

text \<open>\<open>[(-1, 0), (1, 0), (0, -1), (0, 1), (-1, -1), (-1, 1), (1, -1), (1, 1)]\<close>\<close>

definition directions_utils :: "direction list" where
  "directions_utils = [N, S, W, E, NW, NE, SW, SE]"

text \<open>
  The \<open>while\<close> loop of \<open>find_valid_moves\<close>: move on while the cell is on the board
  and holds a disk of the opponent; the result is the cell where the loop stops.
\<close>

function skip_opponent :: "grid \<Rightarrow> int \<Rightarrow> direction \<Rightarrow> cell \<Rightarrow> cell" where
  "skip_opponent b opponent d n =
     (if inb n \<and> b n = opponent then skip_opponent b opponent d (step d n) else n)"
  by pat_completeness auto
termination
  by (relation "measure (\<lambda>(b, opponent, d, n). to_edge d n)")
     (auto simp: inb_def step_def to_edge_def split: if_splits, (case_tac d; simp)+)

declare skip_opponent.simps [simp del]

text \<open>
  The loop over the directions for one empty cell; it stops (\<open>break\<close>) at the first
  direction that brackets a run, and tells whether the cell was added.
\<close>

fun try_directions :: "grid \<Rightarrow> int \<Rightarrow> cell \<Rightarrow> direction list \<Rightarrow> bool" where
  "try_directions b player rc [] = False"
| "try_directions b player rc (d # ds) =
     (if inb (step d rc) \<and> b (step d rc) = - player then
        (if inb (skip_opponent b (- player) d (step d rc)) \<and>
            b (skip_opponent b (- player) d (step d rc)) = player
         then True
         else try_directions b player rc ds)
      else try_directions b player rc ds)"

definition find_valid_moves_found :: "grid \<Rightarrow> int \<Rightarrow> cell list" where
  "find_valid_moves_found b player =
     concat (map (\<lambda>r. concat (map (\<lambda>c.
        if b (r, c) \<noteq> 0 then []
        else if try_directions b player (r, c) directions_utils then [(r, c)] else [])
        [0..7])) [0..7])"

definition find_valid_moves :: "grid \<Rightarrow> int \<Rightarrow> cell set" where
  "find_valid_moves b player = set (find_valid_moves_found b player)"

text \<open>
  \<open>find_stable_disks\<close>. The loop over the directions with its \<open>break\<close> is
  \<open>no_empty_neighbour\<close>: it gives the value of the flag \<open>stable\<close>.
\<close>

fun no_empty_neighbour :: "grid \<Rightarrow> cell \<Rightarrow> direction list \<Rightarrow> bool" where
  "no_empty_neighbour b rc [] = True"
| "no_empty_neighbour b rc (d # ds) =
     (if inb (step d rc) \<and> b (step d rc) = 0 then False else no_empty_neighbour b rc ds)"

definition find_stable_disks :: "grid \<Rightarrow> int \<Rightarrow> nat" where
  "find_stable_disks b player =
     sum_list (map (\<lambda>r. sum_list (map (\<lambda>c.
        if b (r, c) = player \<and> no_empty_neighbour b (r, c) directions then 1 else 0)
        [0..7])) [0..7])"

text \<open>
  \<open>find_unstable_disks\<close>: for every move of the opponent and every direction, one is
  added when the neighbour of the move in that direction is a disk of \<open>player\<close>.
\<close>

definition find_unstable_disks :: "grid \<Rightarrow> int \<Rightarrow> cell set \<Rightarrow> nat" where
  "find_unstable_disks b player opponent_moves =
     (\<Sum>move\<in>opponent_moves.
        length (filter (\<lambda>d. inb (step d move) \<and> b (step d move) = player) directions))"

text \<open>\<open>stability_heuristic\<close> of heuristics.py, with the weights 2 and 1.\<close>

definition stability_heuristic :: "game \<Rightarrow> int \<Rightarrow> real" where
  "stability_heuristic g player =
     (let opponent = - player;
          player_stable = int (find_stable_disks (board g) player);
          opponent_stable = int (find_stable_disks (board g) opponent);
          player_unstable = int (find_unstable_disks (board g) player
                                   (valid_moves (board g) opponent));
          opponent_unstable = int (find_unstable_disks (board g) opponent
                                     (valid_moves (board g) player));
          stable_diff = (if player_stable + opponent_stable \<noteq> 0
                         then 100 * real_of_int (player_stable - opponent_stable)
                                / real_of_int (player_stable + opponent_stable)
                         else 0);
          unstable_diff = (if player_unstable + opponent_unstable \<noteq> 0
                           then 100 * real_of_int (opponent_unstable - player_unstable)
                                  / real_of_int (player_unstable + opponent_unstable)
                           else 0)
      in (2 * stable_diff + 1 * unstable_diff) / (2 + 1))"

text \<open>
  The stability score as the specification words it: a disk is stable when none of its
  neighbouring cells on the board is empty, and the unstable count of a side is the
  number of its disks that have a neighbouring cell in the legal moves of the other side.
\<close>

definition all_cells :: "cell list" where
  "all_cells = concat (map (\<lambda>r. map (\<lambda>c. (r, c)) [0..7]) [0..7])"

definition spec_stable_count :: "grid \<Rightarrow> int \<Rightarrow> nat" where
  "spec_stable_count b p =
     length (filter (\<lambda>rc. b rc = p \<and>
        list_all (\<lambda>d. \<not> (inb (step d rc) \<and> b (step d rc) = 0)) directions) all_cells)"

definition spec_unstable_count :: "grid \<Rightarrow> int \<Rightarrow> nat" where
  "spec_unstable_count b p =
     length (filter (\<lambda>rc. b rc = p \<and>
        list_ex (\<lambda>d. step d rc \<in> valid_moves b (- p)) directions) all_cells)"

definition spec_stability :: "game \<Rightarrow> int \<Rightarrow> real" where
  "spec_stability g p =
     (let ps = int (spec_stable_count (board g) p);
          os = int (spec_stable_count (board g) (- p));
          pu = int (spec_unstable_count (board g) p);
          ou = int (spec_unstable_count (board g) (- p));
          S = (if ps + os = 0 then 0 else 100 * real_of_int (ps - os) / real_of_int (ps + os));
          U = (if pu + ou = 0 then 0 else 100 * real_of_int (ou - pu) / real_of_int (pu + ou))
      in (2 * S + U) / 3)"

text \<open>The position after black has played (2,3) on the opening position.\<close>

definition after_23 :: game where
  "after_23 = \<lparr> board = snd (apply_move initial_board (2, 3) 1), current_player = - 1 \<rparr>"

section \<open>Monte Carlo tree search (mcts.py)\<close>

text \<open>
  \<open>get_node_key\<close>: \<open>tuple(map(tuple, game_state.board))\<close>, the rows of the grid.
\<close>

definition get_node_key :: "game \<Rightarrow> int list list" where
  "get_node_key game_state = map (\<lambda>r. map (\<lambda>c. board game_state (r, c)) [0..7]) [0..7]"

section \<open>Game objects and arrays in a store\<close>

text \<open>
  For the claims about aliasing the objects of the program are kept in a store. A numpy
  array has an address and a content; an \<open>Othello\<close> object has an address, the address
  of its \<open>board\<close> array and its \<open>current_player\<close>. Addresses below \<open>n_arrays\<close> and
  \<open>n_objects\<close> are in use; a new array or object takes the next address.
\<close>

record store =
  arrays :: "nat \<Rightarrow> grid"
  n_arrays :: nat
  board_of :: "nat \<Rightarrow> nat"
  player_of :: "nat \<Rightarrow> int"
  n_objects :: nat

text \<open>The game that an object stands for.\<close>

definition game_of :: "store \<Rightarrow> nat \<Rightarrow> game" where
  "game_of s obj = \<lparr> board = arrays s (board_of s obj), current_player = player_of s obj \<rparr>"

definition new_array :: "store \<Rightarrow> grid \<Rightarrow> nat \<times> store" where
  "new_array s content =
     (n_arrays s, s\<lparr>arrays := (arrays s)(n_arrays s := content), n_arrays := Suc (n_arrays s)\<rparr>)"

text \<open>
  \<open>Othello.__init__\<close> with the fixed opening: a new array with the four disks, and a new
  object that refers to it, black to move.
\<close>

definition othello_init :: "store \<Rightarrow> nat \<times> store" where
  "othello_init s =
     (let (a, s1) = new_array s initial_board
      in (n_objects s1,
          s1\<lparr>board_of := (board_of s1)(n_objects s1 := a),
             player_of := (player_of s1)(n_objects s1 := 1),
             n_objects := Suc (n_objects s1)\<rparr>))"

text \<open>
  \<open>Othello.copy\<close>: a new object from \<open>__init__\<close>, whose \<open>board\<close> is then set to a new
  array with the content of the board of \<open>self\<close> (\<open>np.copy\<close>), and whose
  \<open>current_player\<close> is that of \<open>self\<close>.
\<close>

definition copy_obj :: "store \<Rightarrow> nat \<Rightarrow> nat \<times> store" where
  "copy_obj s self =
     (let (new_game, s1) = othello_init s;
          (a, s2) = new_array s1 (arrays s1 (board_of s1 self))
      in (new_game,
          s2\<lparr>board_of := (board_of s2)(new_game := a),
             player_of := (player_of s2)(new_game := player_of s2 self)\<rparr>))"

text \<open>
  \<open>apply_move\<close> on an object: the array of the object is read and written in place.
\<close>

definition apply_move_obj :: "store \<Rightarrow> nat \<Rightarrow> cell \<Rightarrow> int \<Rightarrow> bool \<times> store" where
  "apply_move_obj s self move player =
     (let (ok, b') = apply_move (arrays s (board_of s self)) move player
      in (ok, s\<lparr>arrays := (arrays s)(board_of s self := b')\<rparr>))"

text \<open>\<open>self.current_player *= -1\<close>\<close>

definition flip_player :: "store \<Rightarrow> nat \<Rightarrow> store" where
  "flip_player s self = s\<lparr>player_of := (player_of s)(self := player_of s self * (- 1))\<rparr>"

text \<open>
  \<open>MinMaxPlayer.minimax\<close> on objects: the argument \<open>game\<close> is the address of an
  \<open>Othello\<close> object, and the store is passed through every call. The evaluator reads the
  game and changes nothing, as the evaluators of heuristics.py do.
\<close>

function minimax_obj :: "(cell set \<Rightarrow> cell list) \<Rightarrow> minmax_player \<Rightarrow> store \<Rightarrow> nat \<Rightarrow> nat \<Rightarrow>
    score \<Rightarrow> score \<Rightarrow> bool \<Rightarrow> (score \<times> cell option) \<times> store"
  and max_loop_obj :: "(cell set \<Rightarrow> cell list) \<Rightarrow> minmax_player \<Rightarrow> store \<Rightarrow> nat \<Rightarrow> nat \<Rightarrow>
    cell list \<Rightarrow> score \<Rightarrow> score \<Rightarrow> score \<Rightarrow> cell option \<Rightarrow> (score \<times> cell option) \<times> store"
  and min_loop_obj :: "(cell set \<Rightarrow> cell list) \<Rightarrow> minmax_player \<Rightarrow> store \<Rightarrow> nat \<Rightarrow> nat \<Rightarrow>
    cell list \<Rightarrow> score \<Rightarrow> score \<Rightarrow> score \<Rightarrow> cell option \<Rightarrow> (score \<times> cell option) \<times> store"
where
  "minimax_obj to_list self s game dep alpha beta maximizing =
     (if dep = 0 \<or> is_game_over (board (game_of s game))
      then ((Fin (heuristic_function self (game_of s game) (color self)), None), s)
      else if to_list (valid_moves (board (game_of s game))
                         (if maximizing then color self else - color self)) = []
      then (case minimax_obj to_list self s game (dep - 1) alpha beta (\<not> maximizing) of
              (r, s') \<Rightarrow> ((fst r, None), s'))
      else if maximizing
      then max_loop_obj to_list self s game (dep - 1)
             (to_list (valid_moves (board (game_of s game)) (color self))) alpha beta NegInf None
      else min_loop_obj to_list self s game (dep - 1)
             (to_list (valid_moves (board (game_of s game)) (- color self))) alpha beta PosInf None)"
| "max_loop_obj to_list self s game dep [] alpha beta max_eval best_move =
     ((max_eval, best_move), s)"
| "max_loop_obj to_list self s game dep (move # rest) alpha beta max_eval best_move =
     (case copy_obj s game of (new_game, s1) \<Rightarrow>
      case apply_move_obj s1 new_game move (color self) of (ok, s2) \<Rightarrow>
      case minimax_obj to_list self s2 new_game dep alpha beta False of (r, s3) \<Rightarrow>
        (if max alpha (fst r) \<ge> beta
         then ((if fst r > max_eval then (fst r, Some move) else (max_eval, best_move)), s3)
         else max_loop_obj to_list self s3 game dep rest (max alpha (fst r)) beta
                (if fst r > max_eval then fst r else max_eval)
                (if fst r > max_eval then Some move else best_move)))"
| "min_loop_obj to_list self s game dep [] alpha beta min_eval best_move =
     ((min_eval, best_move), s)"
| "min_loop_obj to_list self s game dep (move # rest) alpha beta min_eval best_move =
     (case copy_obj s game of (new_game, s1) \<Rightarrow>
      case apply_move_obj s1 new_game move (- color self) of (ok, s2) \<Rightarrow>
      case minimax_obj to_list self s2 new_game dep alpha beta True of (r, s3) \<Rightarrow>
        (if min beta (fst r) \<le> alpha
         then ((if fst r < min_eval then (fst r, Some move) else (min_eval, best_move)), s3)
         else min_loop_obj to_list self s3 game dep rest alpha (min beta (fst r))
                (if fst r < min_eval then fst r else min_eval)
                (if fst r < min_eval then Some move else best_move)))"
  by pat_completeness auto
termination
  by (relation "inv_image (less_than <*lex*> less_than) (\<lambda>x. case x of
         Inl (_, _, _, _, dep, _) \<Rightarrow> (dep, 0)
       | Inr (Inl (_, _, _, _, dep, ms, _)) \<Rightarrow> (dep, Suc (length ms))
       | Inr (Inr (_, _, _, _, dep, ms, _)) \<Rightarrow> (dep, Suc (length ms)))")
     auto

text \<open>\<open>MinMaxPlayer.get_move\<close> on an object.\<close>

definition get_move_obj :: "(cell set \<Rightarrow> cell list) \<Rightarrow> minmax_player \<Rightarrow> store \<Rightarrow> nat \<Rightarrow>
    cell option \<times> store" where
  "get_move_obj to_list self s game =
     (case minimax_obj to_list self s game (depth self) NegInf PosInf True of
        ((_, best_move), s') \<Rightarrow> (best_move, s'))"

text \<open>
  Every array and object of \<open>s\<close> is in \<open>s'\<close> with the same content.
\<close>

definition unchanged :: "store \<Rightarrow> store \<Rightarrow> bool" where
  "unchanged s s' =
     (n_arrays s \<le> n_arrays s' \<and> n_objects s \<le> n_objects s' \<and>
      (\<forall>a<n_arrays s. arrays s' a = arrays s a) \<and>
      (\<forall>obj<n_objects s. board_of s' obj = board_of s obj \<and> player_of s' obj = player_of s obj))"

text \<open>The objects of the store refer to arrays of the store.\<close>

definition wf_store :: "store \<Rightarrow> bool" where
  "wf_store s = (\<forall>obj<n_objects s. board_of s obj < n_arrays s)"

section \<open>The search loop of the tree search (mcts.py)\<close>

text \<open>
  The search raises a Python exception where a dictionary has no entry for a key or a
  number is divided by zero. Loops that have no bound in the source take a number of
  steps they may use (\<open>fuel\<close>); \<open>OutOfFuel\<close> says that the steps did not suffice.
\<close>

type_synonym key = "int list list"





text \<open>
  The dictionary \<open>node_info[key]\<close>: each of the entries \<open>'untried_moves'\<close>, \<open>'visits'\<close>
  and \<open>'wins'\<close> is absent (\<open>None\<close>) or present; \<open>'untried_moves'\<close>, when present, is
  the Python \<open>None\<close> or a list of moves.
\<close>

record node =
  untried_moves :: "cell list option option"
  visits :: "nat option"
  wins :: "real option"

definition empty_node :: node where
  "empty_node = \<lparr> untried_moves = None, visits = None, wins = None \<rparr>"

text \<open>
  \<open>MCTSAgent\<close>. \<open>children\<close> is a dictionary in insertion order (the order matters for the
  search of a parent), \<open>node_info\<close> a dictionary whose order is never used.
\<close>

record agent =
  time_limit :: "real option"
  nb_iterations :: nat
  nb_rollouts :: nat
  c_param :: real
  children :: "(key \<times> key list) list"
  node_info :: "key \<Rightarrow> node option"

text \<open>
  What a search changes: the store of the game objects, the agent, and the position in
  the sequence of random numbers that \<open>random.choice\<close> consumes.
\<close>

record world =
  heap :: store
  mcts :: agent
  rnd :: nat

definition set_heap :: "world \<Rightarrow> store \<Rightarrow> world" where
  "set_heap w s = w\<lparr>heap := s\<rparr>"

text \<open>
  \<open>self.children[k]\<close> and \<open>self.node_info[k]\<close> of the two \<open>defaultdict\<close>s: a key that
  is absent is entered with the empty list or the empty dictionary.
\<close>

definition children_get :: "world \<Rightarrow> key \<Rightarrow> key list \<times> world" where
  "children_get w k =
     (case map_of (children (mcts w)) k of
        Some cs \<Rightarrow> (cs, w)
      | None \<Rightarrow> ([], w\<lparr>mcts := (mcts w)\<lparr>children := children (mcts w) @ [(k, [])]\<rparr>\<rparr>))"

definition node_get :: "world \<Rightarrow> key \<Rightarrow> node \<times> world" where
  "node_get w k =
     (case node_info (mcts w) k of
        Some n \<Rightarrow> (n, w)
      | None \<Rightarrow> (empty_node,
                 w\<lparr>mcts := (mcts w)\<lparr>node_info := (node_info (mcts w))(k \<mapsto> empty_node)\<rparr>\<rparr>))"

text \<open>An assignment to entries of \<open>self.node_info[k]\<close>.\<close>

definition node_set :: "world \<Rightarrow> key \<Rightarrow> (node \<Rightarrow> node) \<Rightarrow> world" where
  "node_set w k f =
     (case node_get w k of
        (n, w1) \<Rightarrow> w1\<lparr>mcts := (mcts w1)\<lparr>node_info := (node_info (mcts w1))(k \<mapsto> f n)\<rparr>\<rparr>)"

text \<open>\<open>self.children[k].append(c)\<close>\<close>

definition children_append :: "world \<Rightarrow> key \<Rightarrow> key \<Rightarrow> world" where
  "children_append w k c =
     (case children_get w k of
        (cs, w1) \<Rightarrow> w1\<lparr>mcts := (mcts w1)\<lparr>children :=
           map (\<lambda>(k', cs'). if k' = k then (k', cs' @ [c]) else (k', cs')) (children (mcts w1))\<rparr>\<rparr>)"



text \<open>
  \<open>np.log\<close> and \<open>np.sqrt\<close> are the logarithm and the square root of the reals; the
  rounding of floating point numbers and the values \<open>inf\<close> and \<open>nan\<close> that numpy gives
  for \<open>np.log(0)\<close> are not modelled. The two functions are not unfolded when a search is
  evaluated.
\<close>

definition np_log :: "real \<Rightarrow> real" where
  "np_log x = ln x"

definition np_sqrt :: "real \<Rightarrow> real" where
  "np_sqrt x = sqrt x"

declare np_log_def [code del] np_sqrt_def [code del]








definition moves_of :: "(cell set \<Rightarrow> cell list) \<Rightarrow> world \<Rightarrow> nat \<Rightarrow> cell list" where
  "moves_of to_list w game_state =
     to_list (valid_moves (board (game_of (heap w) game_state)) (player_of (heap w) game_state))"



text \<open>
  \<open>MCTSAgent.expansion\<close>, in three steps: \<open>init_node\<close> enters the untried moves and the
  counters when \<open>'untried_moves'\<close> is absent; \<open>expand_move\<close> takes a random untried
  move, plays it on a copy and \<open>add_child\<close> enters the new state in the tree.
\<close>

definition init_node :: "(cell set \<Rightarrow> cell list) \<Rightarrow> world \<Rightarrow> nat \<Rightarrow> key \<Rightarrow> world" where
  "init_node to_list w game_state node_key =
     (case node_get w node_key of (info, w1) \<Rightarrow>
        if untried_moves info = None
        then node_set w1 node_key (\<lambda>n.
               \<lparr> untried_moves = Some (Some (moves_of to_list w1 game_state)),
                 visits = Some 0, wins = Some 0 \<rparr>)
        else w1)"


















section \<open>Auxiliary notions for the proofs\<close>

text \<open>The cell reached from \<open>m\<close> after \<open>k\<close> steps in direction \<open>d\<close>.\<close>

definition pos :: "cell \<Rightarrow> direction \<Rightarrow> nat \<Rightarrow> cell" where
  "pos m d k = (fst m + int k * dr d, snd m + int k * dc d)"

text \<open>The \<open>k\<close> cells starting at \<open>m\<close> in direction \<open>d\<close> are on the board and hold \<open>- p\<close>.\<close>

definition run :: "grid \<Rightarrow> int \<Rightarrow> cell \<Rightarrow> direction \<Rightarrow> nat \<Rightarrow> bool" where
  "run b p m d k = (\<forall>i<k. inb (pos m d i) \<and> b (pos m d i) = - p)"

text \<open>
  In direction \<open>d\<close> from \<open>m\<close> there are \<open>n > 0\<close> disks of the opponent followed by a disk
  of \<open>p\<close>.
\<close>

definition bracket :: "grid \<Rightarrow> int \<Rightarrow> cell \<Rightarrow> direction \<Rightarrow> nat \<Rightarrow> bool" where
  "bracket b p m d n =
     (0 < n \<and> run b p (step d m) d n \<and> inb (pos m d (Suc n)) \<and> b (pos m d (Suc n)) = p)"

fun opp :: "direction \<Rightarrow> direction" where
  "opp NW = SE" | "opp N = S" | "opp NE = SW" | "opp W = E"
| "opp E = W" | "opp SW = NE" | "opp S = N" | "opp SE = NW"

text \<open>
  The cells that a move of \<open>p\<close> at \<open>m\<close> turns over: the disks of a run of the opponent
  that starts next to \<open>m\<close> in some direction and is closed by a disk of \<open>p\<close>.
\<close>

definition flipped :: "grid \<Rightarrow> int \<Rightarrow> cell \<Rightarrow> cell \<Rightarrow> bool" where
  "flipped b p m c = (\<exists>d n j. bracket b p m d n \<and> 1 \<le> j \<and> j \<le> n \<and> c = pos m d j)"

definition flips_in :: "grid \<Rightarrow> int \<Rightarrow> cell \<Rightarrow> direction \<Rightarrow> cell set" where
  "flips_in b p m d = {c. \<exists>n j. bracket b p m d n \<and> 1 \<le> j \<and> j \<le> n \<and> c = pos m d j}"

text \<open>The board after the placement and the flips in the directions \<open>D\<close>.\<close>

definition after_flips :: "grid \<Rightarrow> int \<Rightarrow> cell \<Rightarrow> direction set \<Rightarrow> grid" where
  "after_flips b p m D = (\<lambda>c. if c = m \<or> (\<exists>d\<in>D. c \<in> flips_in b p m d) then p else b c)"

text \<open>
  What the result \<open>r\<close> of a search with the window \<open>(a, b)\<close> tells about the value \<open>v\<close> of
  the full search: at or below \<open>a\<close> it is an upper bound, at or above \<open>b\<close> a lower bound,
  and strictly inside the window it is the value.
\<close>

definition bounds :: "'a::linorder \<Rightarrow> 'a \<Rightarrow> 'a \<Rightarrow> 'a \<Rightarrow> bool" where
  "bounds a b r v = ((r \<le> a \<longrightarrow> v \<le> r) \<and> (b \<le> r \<longrightarrow> r \<le> v) \<and> (a < r \<and> r < b \<longrightarrow> r = v))"

text \<open>
  Notions for the run of the tree search from the game \<open>G\<close> of the caller. An object is
  valid when it and its array are in use. \<open>step_game G m\<close> is the game after the three
  lines of \<open>try_move\<close>; \<open>child_keys G\<close> are the keys of the games that the legal moves of
  the side to move lead to.
\<close>

definition valid_obj :: "store \<Rightarrow> nat \<Rightarrow> bool" where
  "valid_obj s obj = (obj < n_objects s \<and> board_of s obj < n_arrays s)"

definition step_game :: "game \<Rightarrow> cell \<Rightarrow> game" where
  "step_game G m = \<lparr> board = snd (apply_move (board G) m (current_player G)),
                     current_player = current_player G * (- 1) \<rparr>"

definition child_keys :: "game \<Rightarrow> key set" where
  "child_keys G = (\<lambda>m. get_node_key (step_game G m)) ` valid_moves (board G) (current_player G)"

text \<open>
  The shape of the tree during a search from \<open>G\<close> that started with empty dictionaries:
  only the root has children, they are keys of \<open>child_keys G\<close>, every entry of
  \<open>node_info\<close> has its three fields, the untried moves of the root are legal moves, and
  the children have \<open>None\<close> as their untried moves.
\<close>

definition tree_inv :: "game \<Rightarrow> world \<Rightarrow> bool" where
  "tree_inv G w =
     (distinct (map fst (children (mcts w))) \<and>
      (\<forall>k cs. (k, cs) \<in> set (children (mcts w)) \<longrightarrow> cs \<noteq> [] \<longrightarrow>
         k = get_node_key G \<and> set cs \<subseteq> child_keys G \<and>
         node_info (mcts w) (get_node_key G) \<noteq> None) \<and>
      (\<forall>k n. node_info (mcts w) k = Some n \<longrightarrow>
         visits n \<noteq> None \<and> wins n \<noteq> None \<and> untried_moves n \<noteq> None) \<and>
      (\<forall>n. node_info (mcts w) (get_node_key G) = Some n \<longrightarrow>
         (\<exists>U. untried_moves n = Some (Some U) \<and>
              set U \<subseteq> valid_moves (board G) (current_player G))) \<and>
      (\<forall>cs c. (get_node_key G, cs) \<in> set (children (mcts w)) \<longrightarrow> c \<in> set cs \<longrightarrow>
         (\<exists>n. node_info (mcts w) c = Some n \<and> untried_moves n = Some None)))"

text \<open>
  \<open>tree_mid G w e\<close>: moreover every child of the root other than \<open>e\<close> has been visited;
  \<open>tree_ok G w\<close>: every child of the root has been visited.
\<close>

definition tree_mid :: "game \<Rightarrow> world \<Rightarrow> key \<Rightarrow> bool" where
  "tree_mid G w e =
     (tree_inv G w \<and>
      (\<forall>cs c n. (get_node_key G, cs) \<in> set (children (mcts w)) \<longrightarrow> c \<in> set cs \<longrightarrow> c \<noteq> e \<longrightarrow>
         node_info (mcts w) c = Some n \<longrightarrow> visits n \<noteq> Some 0))"

definition tree_ok :: "game \<Rightarrow> world \<Rightarrow> bool" where
  "tree_ok G w =
     (tree_inv G w \<and>
      (\<forall>cs c n. (get_node_key G, cs) \<in> set (children (mcts w)) \<longrightarrow> c \<in> set cs \<longrightarrow>
         node_info (mcts w) c = Some n \<longrightarrow> visits n \<noteq> Some 0))"

text \<open>The number of empty cells of a grid.\<close>

definition empties :: "grid \<Rightarrow> nat" where
  "empties b = card {c. inb c \<and> b c = 0}"

text \<open>
  A position in which black has no move and white has one: white on (0,0), black on (0,1).
\<close>

definition pass_board :: grid where
  "pass_board = empty_grid((0,0) := -1, (0,1) := 1)"

definition pass_game :: game where
  "pass_game = \<lparr> board = pass_board, current_player = 1 \<rparr>"

definition coin_player :: "nat \<Rightarrow> minmax_player" where
  "coin_player d = \<lparr> color = 1, depth = d, heuristic_function = coin_parity_heuristic \<rparr>"



section \<open>Properties of the rules engine\<close>

lemma pos_0 [simp]: "pos m d 0 = m" by (simp add: pos_def)
lemma pos_step: "pos (step d m) d k = pos m d (Suc k)"
  by (simp add: pos_def step_def algebra_simps)
lemma step_pos: "step d (pos m d k) = pos m d (Suc k)"
  by (simp add: pos_def step_def algebra_simps)
lemma pos_1: "pos m d (Suc 0) = step d m"
  by (simp add: pos_def step_def)
lemma pos_add: "pos (pos m d j) d k = pos m d (j + k)"
  by (simp add: pos_def algebra_simps)
lemma dr_opp [simp]: "dr (opp d) = - dr d" by (cases d) auto
lemma dc_opp [simp]: "dc (opp d) = - dc d" by (cases d) auto
lemma opp_opp [simp]: "opp (opp d) = d" by (cases d) auto
lemma pos_opp: "j \<le> k \<Longrightarrow> pos (pos m d k) (opp d) j = pos m d (k - j)"
  by (simp add: pos_def algebra_simps of_nat_diff)
lemma set_directions [simp]: "d \<in> set directions"
  by (cases d) (auto simp: directions_def)
lemma set_directions_utils [simp]: "d \<in> set directions_utils"
  by (cases d) (auto simp: directions_utils_def)

lemma run_0 [simp]: "run b p m d 0" by (simp add: run_def)
lemma run_Suc: "run b p m d (Suc k) = (inb m \<and> b m = - p \<and> run b p (step d m) d k)"
  unfolding run_def pos_step
  by (auto simp: less_Suc_eq_0_disj)

lemma inb_cases: "inb rc \<longleftrightarrow> fst rc \<in> set [0..7] \<and> snd rc \<in> set [0..7]"
  by (auto simp: inb_def)

lemma scan_iff:
  "scan b p d n found = Some m \<longleftrightarrow>
     p \<noteq> 0 \<and> (\<exists>k. (found \<or> 0 < k) \<and> run b p n d k \<and> m = pos n d k \<and> inb m \<and> b m = 0)"
proof (induction b p d n found rule: scan.induct)
  case (1 b p d n found)
  show ?case
  proof (cases "inb n \<and> b n = - p")
    case True
    then have "scan b p d n found = scan b p d (step d n) True"
      by (simp add: scan.simps)
    also have "\<dots> = Some m \<longleftrightarrow> p \<noteq> 0 \<and> (\<exists>k. run b p (step d n) d k \<and> m = pos (step d n) d k \<and> inb m \<and> b m = 0)"
      using 1 True by simp
    also have "\<dots> \<longleftrightarrow> p \<noteq> 0 \<and> (\<exists>k. (found \<or> 0 < k) \<and> run b p n d k \<and> m = pos n d k \<and> inb m \<and> b m = 0)"
      (is "?L \<longleftrightarrow> ?R")
    proof
      assume ?L
      then obtain k where "p \<noteq> 0" "run b p (step d n) d k" "m = pos (step d n) d k" "inb m" "b m = 0"
        by blast
      with True have "run b p n d (Suc k)" "m = pos n d (Suc k)"
        by (simp_all add: run_Suc pos_step)
      with \<open>p \<noteq> 0\<close> \<open>inb m\<close> \<open>b m = 0\<close> show ?R by blast
    next
      assume ?R
      then obtain k where k: "p \<noteq> 0" "run b p n d k" "m = pos n d k" "inb m" "b m = 0"
        by blast
      with True have "k \<noteq> 0" by (cases k) auto
      then obtain k' where "k = Suc k'" by (cases k) auto
      with k show ?L by (auto simp: run_Suc pos_step)
    qed
    finally show ?thesis .
  next
    case False
    then have nr: "\<And>k. run b p n d k \<Longrightarrow> k = 0"
      by (case_tac k) (auto simp: run_Suc)
    show ?thesis
    proof (cases "inb n \<and> b n = 0 \<and> found")
      case True
      with False have "scan b p d n found = Some n" "p \<noteq> 0"
        by (auto simp: scan.simps)
      with True nr show ?thesis by (auto intro: exI[of _ 0] dest: nr)
    next
      case F2: False
      with False have "scan b p d n found = None"
        by (auto simp: scan.simps)
      with F2 nr show ?thesis by (auto dest: nr)
    qed
  qed
qed

lemma run_rev:
  assumes "run b p (step d c) d k" "m = pos c d (Suc k)"
  shows "run b p (step (opp d) m) (opp d) k"
  unfolding run_def
proof (intro allI impI)
  fix i assume "i < k"
  have "pos (step (opp d) m) (opp d) i = pos (pos c d (Suc k)) (opp d) (Suc i)"
    by (simp add: pos_step assms)
  also have "\<dots> = pos c d (Suc k - Suc i)"
    using \<open>i < k\<close> by (intro pos_opp) simp
  also have "\<dots> = pos (step d c) d (k - Suc i)"
    using \<open>i < k\<close> by (simp add: pos_step Suc_diff_Suc)
  finally show "inb (pos (step (opp d) m) (opp d) i) \<and> b (pos (step (opp d) m) (opp d) i) = - p"
    using assms(1) \<open>i < k\<close> by (simp add: run_def)
qed

lemma pos_back: "pos (pos c d k) (opp d) k = c"
  using pos_opp[of k k c d] by simp

lemma le7: "(x::int) \<le> 7 \<longleftrightarrow> x < 8" by auto

lemma valid_moves_mem:
  "m \<in> valid_moves b p \<longleftrightarrow> (\<exists>r c. inb (r, c) \<and> b (r, c) = p \<and> m \<in> set (scan_dirs b p (r, c)))"
proof -
  have "m \<in> valid_moves b p \<longleftrightarrow>
        (\<exists>r\<in>{0..7}. \<exists>c\<in>{0..7}. b (r, c) = p \<and> m \<in> set (scan_dirs b p (r, c)))"
    unfolding valid_moves_def valid_moves_found_def by (simp add: Bex_def)
  also have "\<dots> \<longleftrightarrow> (\<exists>r c. inb (r, c) \<and> b (r, c) = p \<and> m \<in> set (scan_dirs b p (r, c)))"
    unfolding inb_def Bex_def by (simp add: le7)
  finally show ?thesis .
qed

lemma valid_moves_iff:
  "m \<in> valid_moves b p \<longleftrightarrow> p \<noteq> 0 \<and> inb m \<and> b m = 0 \<and> (\<exists>d n. bracket b p m d n)"
  (is "?L \<longleftrightarrow> ?R")
proof
  assume ?L
  then obtain r c d where rc: "inb (r, c)" "b (r, c) = p"
    and sc: "scan b p d (step d (r, c)) False = Some m"
    unfolding valid_moves_mem scan_dirs_def
    by (fastforce split: if_splits option.splits)
  from sc obtain k where k: "p \<noteq> 0" "0 < k" "run b p (step d (r, c)) d k"
     "m = pos (step d (r, c)) d k" "inb m" "b m = 0"
    by (auto simp: scan_iff)
  have m: "m = pos (r, c) d (Suc k)" using k by (simp add: pos_step)
  have "run b p (step (opp d) m) (opp d) k"
    using run_rev[OF k(3) m] .
  moreover have "pos m (opp d) (Suc k) = (r, c)"
    unfolding m by (rule pos_back)
  ultimately have "bracket b p m (opp d) k"
    using rc k by (simp add: bracket_def)
  with k show ?R by blast
next
  assume ?R
  then obtain d n where R: "p \<noteq> 0" "inb m" "b m = 0" "bracket b p m d n" by blast
  define c where "c = pos m d (Suc n)"
  have c: "inb c" "b c = p" "0 < n" "run b p (step d m) d n"
    using R by (simp_all add: bracket_def c_def)
  have "run b p (step (opp d) c) (opp d) n"
    using run_rev[OF c(4), of c] by (simp add: c_def)
  moreover have "m = pos (step (opp d) c) (opp d) n"
    unfolding pos_step c_def by (simp add: pos_back)
  ultimately have "scan b p (opp d) (step (opp d) c) False = Some m"
    using R c by (auto simp: scan_iff)
  then have "m \<in> set (scan_dirs b p c)"
    by (cases m) (auto simp: scan_dirs_def intro!: bexI[of _ "opp d"])
  with c show ?L
    unfolding valid_moves_mem by (cases c) auto
qed

lemma skip_opponent_pos:
  "\<exists>k. skip_opponent b (- p) d n = pos n d k \<and> run b p n d k \<and>
       \<not> (inb (pos n d k) \<and> b (pos n d k) = - p)"
proof (induction b "- p" d n rule: skip_opponent.induct)
  case (1 b d n)
  show ?case
  proof (cases "inb n \<and> b n = - p")
    case True
    with 1 obtain k where k: "skip_opponent b (- p) d (step d n) = pos (step d n) d k"
      "run b p (step d n) d k" "\<not> (inb (pos (step d n) d k) \<and> b (pos (step d n) d k) = - p)"
      by blast
    have "skip_opponent b (- p) d n = skip_opponent b (- p) d (step d n)"
      using True by (subst skip_opponent.simps) simp
    with k True show ?thesis
      by (intro exI[of _ "Suc k"]) (simp add: run_Suc pos_step)
  next
    case False
    then have "skip_opponent b (- p) d n = n"
      by (subst skip_opponent.simps) auto
    with False show ?thesis
      by (intro exI[of _ 0]) simp
  qed
qed

lemma run_less: "run b p m d k \<Longrightarrow> i < k \<Longrightarrow> inb (pos m d i) \<and> b (pos m d i) = - p"
  by (simp add: run_def)

lemma skip_opponent_bracket:
  assumes p: "p \<noteq> 0"
  shows "(inb (step d m) \<and> b (step d m) = - p \<and>
    inb (skip_opponent b (- p) d (step d m)) \<and> b (skip_opponent b (- p) d (step d m)) = p)
   \<longleftrightarrow> (\<exists>n. bracket b p m d n)"
  (is "?L \<longleftrightarrow> ?R")
proof -
  obtain k where k: "skip_opponent b (- p) d (step d m) = pos (step d m) d k"
     "run b p (step d m) d k" "\<not> (inb (pos (step d m) d k) \<and> b (pos (step d m) d k) = - p)"
    using skip_opponent_pos by blast
  show ?thesis
  proof
    assume L: ?L
    have "k \<noteq> 0"
    proof
      assume "k = 0"
      with k(1) have "skip_opponent b (- p) d (step d m) = step d m" by simp
      with L p show False by simp
    qed
    then have "bracket b p m d k"
      using k L by (simp add: bracket_def pos_step)
    then show ?R ..
  next
    assume ?R
    then obtain n where n: "0 < n" "run b p (step d m) d n" "inb (pos (step d m) d n)"
       "b (pos (step d m) d n) = p"
      by (auto simp: bracket_def pos_step)
    have "\<not> k < n"
      using run_less[OF n(2), of k] k(3) by blast
    moreover have "\<not> n < k"
    proof
      assume "n < k"
      from run_less[OF k(2) this] n(4) have "p = - p" by simp
      with p show False by simp
    qed
    ultimately have "k = n" by simp
    moreover have "inb (step d m) \<and> b (step d m) = - p"
      using run_less[OF n(2) n(1)] by simp
    ultimately show ?L using k(1) n(3,4) by simp
  qed
qed

lemma try_directions_iff:
  "p \<noteq> 0 \<Longrightarrow> try_directions b p m ds \<longleftrightarrow> (\<exists>d\<in>set ds. \<exists>n. bracket b p m d n)"
proof (induction ds)
  case Nil
  then show ?case by simp
next
  case (Cons d ds)
  show ?case
    using skip_opponent_bracket[OF Cons.prems, of d m b] Cons.IH[OF Cons.prems]
    by (auto simp del: )
qed

lemma try_directions_0: "\<not> try_directions b 0 m ds"
proof (induction ds)
  case Nil
  then show ?case by simp
next
  case (Cons d ds)
  obtain k where "skip_opponent b (- 0) d (step d m) = pos (step d m) d k"
    "\<not> (inb (pos (step d m) d k) \<and> b (pos (step d m) d k) = - 0)"
    using skip_opponent_pos[of b 0 d "step d m"] by blast
  with Cons show ?case by auto
qed

lemma find_valid_moves_mem:
  "m \<in> find_valid_moves b p \<longleftrightarrow> inb m \<and> b m = 0 \<and> try_directions b p m directions_utils"
proof -
  have "m \<in> find_valid_moves b p \<longleftrightarrow>
        (\<exists>r\<in>{0..7}. \<exists>c\<in>{0..7}. b (r, c) = 0 \<and> try_directions b p (r, c) directions_utils \<and> m = (r, c))"
    unfolding find_valid_moves_def find_valid_moves_found_def by (auto simp add: Bex_def)
  also have "\<dots> \<longleftrightarrow> inb m \<and> b m = 0 \<and> try_directions b p m directions_utils"
    unfolding inb_def Bex_def by (cases m) (auto simp add: le7)
  finally show ?thesis .
qed

lemma find_valid_moves_iff:
  "m \<in> find_valid_moves b p \<longleftrightarrow> p \<noteq> 0 \<and> inb m \<and> b m = 0 \<and> (\<exists>d n. bracket b p m d n)"
proof (cases "p = 0")
  case True
  then show ?thesis by (simp add: find_valid_moves_mem try_directions_0)
next
  case False
  then show ?thesis by (auto simp add: find_valid_moves_mem try_directions_iff)
qed

text \<open>
  C10: the move generator of utils.py, which starts from the empty cells, and the rules
  engine's \<open>valid_moves\<close>, which starts from the player's disks, return the same set
  of moves for every grid and every player.
\<close>

theorem find_valid_moves_eq_valid_moves:
  "find_valid_moves b player = valid_moves b player"
  by (auto simp: find_valid_moves_iff valid_moves_iff)

lemma pos_neq_start: "0 < k \<Longrightarrow> pos m d k \<noteq> m"
  by (cases d; cases m) (auto simp: pos_def)

lemma ray_disjoint: "0 < k \<Longrightarrow> 0 < k' \<Longrightarrow> pos m d k = pos m d' k' \<Longrightarrow> d = d'"
  by (cases d; cases d') (auto simp: pos_def)

lemma bracket_cong:
  assumes "\<And>i. 0 < i \<Longrightarrow> B (pos m d i) = b (pos m d i)"
  shows "bracket B p m d n = bracket b p m d n"
  using assms by (simp add: bracket_def run_def pos_step)

lemma bracket_unique:
  assumes "p \<noteq> 0" "bracket b p m d n" "bracket b p m d n'"
  shows "n = n'"
proof -
  have *: "\<not> n < n'" if "bracket b p m d n" "bracket b p m d n'" for n n'
  proof
    assume "n < n'"
    with that(2) have "b (pos (step d m) d n) = - p"
      by (simp add: bracket_def run_def)
    moreover from that(1) have "b (pos (step d m) d n) = p"
      by (simp add: bracket_def pos_step)
    ultimately show False using \<open>p \<noteq> 0\<close> by simp
  qed
  from *[OF assms(2,3)] *[OF assms(3,2)] show ?thesis by simp
qed

lemma fold_upd: "fold (\<lambda>f b'. b'(f := v)) xs b = (\<lambda>c. if c \<in> set xs then v else b c)"
  by (induction xs arbitrary: b) auto

lemma walk_run:
  "p \<noteq> 0 \<Longrightarrow> run B p (step d m) d k \<Longrightarrow>
     walk B p d (pos m d (Suc k)) (map (pos m d) [1..<Suc k]) =
     (\<lambda>c. if c \<in> flips_in B p m d then p else B c)"
proof (induction B p d "pos m d (Suc k)" "map (pos m d) [1..<Suc k]" arbitrary: k rule: walk.induct)
  case (1 B p d)
  let ?n = "pos m d (Suc k)"
  from "1.prems" have p: "p \<noteq> 0" and rn: "run B p (step d m) d k" by simp_all
  show ?case
  proof (cases "inb ?n \<and> B ?n = - p")
    case True
    then have r: "run B p (step d m) d (Suc k)"
      using rn by (auto simp: run_def pos_step less_Suc_eq)
    have "walk B p d ?n (map (pos m d) [1..<Suc k]) =
          walk B p d (step d ?n) (map (pos m d) [1..<Suc k] @ [?n])"
      using True by (subst walk.simps) simp
    also have "\<dots> = walk B p d (pos m d (Suc (Suc k))) (map (pos m d) [1..<Suc (Suc k)])"
      by (simp add: step_pos)
    also have "\<dots> = (\<lambda>c. if c \<in> flips_in B p m d then p else B c)"
      using True r p by (intro "1.hyps") (simp_all add: step_pos)
    finally show ?thesis .
  next
    case False
    show ?thesis
    proof (cases "inb ?n \<and> B ?n = p")
      case True
      have w: "walk B p d ?n (map (pos m d) [1..<Suc k]) =
            (\<lambda>c. if c \<in> set (map (pos m d) [1..<Suc k]) then p else B c)"
        using True False by (subst walk.simps) (simp add: fold_upd)
      have "flips_in B p m d = set (map (pos m d) [1..<Suc k])"
      proof (cases "k = 0")
        case k0: True
        have "\<not> bracket B p m d n" for n
        proof
          assume "bracket B p m d n"
          then have "B (pos (step d m) d 0) = - p"
            unfolding bracket_def run_def by blast
          with True k0 p show False by (simp add: pos_1)
        qed
        with k0 show ?thesis by (simp add: flips_in_def)
      next
        case kpos: False
        then have br: "bracket B p m d k"
          using True rn by (simp add: bracket_def)
        have "bracket B p m d n \<longleftrightarrow> n = k" for n
          using br bracket_unique[OF p br] by blast
        then show ?thesis
          by (auto simp: flips_in_def)
      qed
      with w show ?thesis by simp
    next
      case F2: False
      have w: "walk B p d ?n (map (pos m d) [1..<Suc k]) = B"
        using False F2 by (subst walk.simps) auto
      have "\<not> bracket B p m d n" for n
      proof
        assume br: "bracket B p m d n"
        consider "n < k" | "n = k" | "k < n" by linarith
        then show False
        proof cases
          case 1
          with rn have "B (pos (step d m) d n) = - p" by (simp add: run_def)
          moreover from br have "B (pos (step d m) d n) = p" by (simp add: bracket_def pos_step)
          ultimately show False using p by simp
        next
          case 2
          with br F2 show False by (simp add: bracket_def)
        next
          case 3
          with br have "inb (pos (step d m) d k) \<and> B (pos (step d m) d k) = - p"
            by (simp add: bracket_def run_def)
          with False show False by (simp add: pos_step)
        qed
      qed
      then have "flips_in B p m d = {}" by (simp add: flips_in_def)
      with w show ?thesis by simp
    qed
  qed
qed

lemma walk_flips:
  assumes "p \<noteq> 0"
  shows "walk B p d (step d m) [] = (\<lambda>c. if c \<in> flips_in B p m d then p else B c)"
  using walk_run[OF assms, of B d m 0] by (simp add: pos_1)

lemma flips_in_cong:
  assumes "\<And>i. 0 < i \<Longrightarrow> B (pos m d i) = b (pos m d i)"
  shows "flips_in B p m d = flips_in b p m d"
  using bracket_cong[of B m d b p, OF assms] by (simp add: flips_in_def)

lemma flips_in_ray: "c \<in> flips_in b p m d \<Longrightarrow> \<exists>j. 0 < j \<and> c = pos m d j"
  unfolding flips_in_def by (clarify, rule_tac x=j in exI, simp)

lemma bex_directions: "(\<exists>d\<in>set directions. P d) = (\<exists>d. P d)"
  by (simp add: Bex_def)

lemma after_flips_ray:
  assumes "d \<notin> D" "0 < i"
  shows "after_flips b p m D (pos m d i) = b (pos m d i)"
proof -
  have "pos m d i \<noteq> m" using assms(2) by (rule pos_neq_start)
  moreover have "pos m d i \<notin> flips_in b p m d'" if "d' \<in> D" for d'
  proof
    assume "pos m d i \<in> flips_in b p m d'"
    then obtain j where "0 < j" "pos m d i = pos m d' j"
      using flips_in_ray by blast
    with \<open>0 < i\<close> have "d = d'" by (rule ray_disjoint[of i j])
    with assms(1) \<open>d' \<in> D\<close> show False by simp
  qed
  ultimately show ?thesis by (simp add: after_flips_def)
qed

lemma after_flips_insert:
  "(\<lambda>c. if c \<in> flips_in b p m d then p else after_flips b p m D c) = after_flips b p m (insert d D)"
  by (rule ext) (simp add: after_flips_def)

lemma walk_after_flips:
  assumes p: "p \<noteq> 0" and d: "d \<notin> D"
  shows "walk (after_flips b p m D) p d (step d m) [] = after_flips b p m (insert d D)"
proof -
  have "flips_in (after_flips b p m D) p m d = flips_in b p m d"
    by (rule flips_in_cong) (rule after_flips_ray[OF d])
  then show ?thesis
    by (simp only: walk_flips[OF p] after_flips_insert)
qed

lemma fold_walk:
  assumes p: "p \<noteq> 0"
  shows "distinct ds \<Longrightarrow> set ds \<inter> D = {} \<Longrightarrow>
     fold (\<lambda>d b'. walk b' p d (step d m) []) ds (after_flips b p m D) =
     after_flips b p m (D \<union> set ds)"
proof (induction ds arbitrary: D)
  case Nil
  then show ?case by simp
next
  case (Cons d ds)
  have dD: "d \<notin> D" using Cons.prems(2) by auto
  have "fold (\<lambda>d b'. walk b' p d (step d m) []) (d # ds) (after_flips b p m D) =
        fold (\<lambda>d b'. walk b' p d (step d m) []) ds (after_flips b p m (insert d D))"
    by (simp only: fold_simps walk_after_flips[OF p dD])
  also have "\<dots> = after_flips b p m (insert d D \<union> set ds)"
    using Cons.prems by (intro Cons.IH) auto
  finally show ?case by simp
qed

lemma distinct_directions: "distinct directions"
  by (simp add: directions_def)

lemma flipped_flips_in: "flipped b p m c \<longleftrightarrow> (\<exists>d. c \<in> flips_in b p m d)"
  by (auto simp: flipped_def flips_in_def)

lemma apply_move_legal:
  assumes "m \<in> valid_moves b p"
  shows "apply_move b m p = (True, \<lambda>c. if c = m \<or> flipped b p m c then p else b c)"
proof -
  from assms have p: "p \<noteq> 0" by (simp add: valid_moves_iff)
  have start: "b(m := p) = after_flips b p m {}"
    by (rule ext) (simp add: after_flips_def)
  have "fold (\<lambda>d b'. walk b' p d (step d m) []) directions (b(m := p)) =
        after_flips b p m ({} \<union> set directions)"
    unfolding start by (rule fold_walk[OF p distinct_directions]) simp
  also have "\<dots> = (\<lambda>c. if c = m \<or> flipped b p m c then p else b c)"
    by (rule ext) (simp add: after_flips_def flipped_flips_in bex_directions)
  finally show ?thesis
    using assms by (simp add: apply_move_def)
qed

text \<open>
  C1: when the move is not among the legal moves of the player, \<open>apply_move\<close> returns
  False and the board is unchanged. When it is legal, the chosen cell is an empty cell of
  the board, \<open>apply_move\<close> returns True, and the new board holds the player's disk on the
  chosen cell and on exactly the cells of the runs of opponent disks that start next to it
  in one of the eight directions and are closed by a disk of the player; every other cell
  is as before.
\<close>

theorem apply_move_spec:
  "(m \<notin> valid_moves b p \<longrightarrow> apply_move b m p = (False, b)) \<and>
   (m \<in> valid_moves b p \<longrightarrow>
      inb m \<and> b m = 0 \<and>
      apply_move b m p =
        (True, \<lambda>c. if c = m \<or>
                       (\<exists>d n j. (0 < n \<and>
                                 (\<forall>i<n. inb (pos (step d m) d i) \<and> b (pos (step d m) d i) = - p) \<and>
                                 inb (pos m d (Suc n)) \<and> b (pos m d (Suc n)) = p) \<and>
                                1 \<le> j \<and> j \<le> n \<and> c = pos m d j)
                    then p else b c))"
proof (intro conjI impI)
  assume "m \<notin> valid_moves b p"
  then show "apply_move b m p = (False, b)" by (simp add: apply_move_def)
next
  assume "m \<in> valid_moves b p"
  then show "inb m" by (simp add: valid_moves_iff)
next
  assume "m \<in> valid_moves b p"
  then show "b m = 0" by (simp add: valid_moves_iff)
next
  assume "m \<in> valid_moves b p"
  from apply_move_legal[OF this] show "apply_move b m p =
        (True, \<lambda>c. if c = m \<or>
                       (\<exists>d n j. (0 < n \<and>
                                 (\<forall>i<n. inb (pos (step d m) d i) \<and> b (pos (step d m) d i) = - p) \<and>
                                 inb (pos m d (Suc n)) \<and> b (pos m d (Suc n)) = p) \<and>
                                1 \<le> j \<and> j \<le> n \<and> c = pos m d j)
                    then p else b c)"
    by (simp add: flipped_def bracket_def run_def)
qed

lemma legal_23: "(2, 3) \<in> valid_moves initial_board 1"
  by code_simp

lemma illegal_00: "(0, 0) \<notin> valid_moves initial_board 1"
  by code_simp

theorem apply_move_spec_witness:
  "(0, 0) \<notin> valid_moves initial_board 1 \<and> apply_move initial_board (0, 0) 1 = (False, initial_board) \<and>
   (2, 3) \<in> valid_moves initial_board 1 \<and> fst (apply_move initial_board (2, 3) 1) \<and>
   snd (apply_move initial_board (2, 3) 1) (2, 3) = 1"
proof -
  have a: "apply_move initial_board (0, 0) 1 = (False, initial_board)"
    using apply_move_spec[of "(0, 0)" initial_board 1] illegal_00 by blast
  have "\<exists>f. apply_move initial_board (2, 3) 1 = (True, \<lambda>c. if c = (2, 3) \<or> f c then 1 else initial_board c)"
    using apply_move_spec[of "(2, 3)" initial_board 1] legal_23 by (intro exI) (erule conjE, erule impE, assumption, (erule conjE)+, assumption)
  then obtain f where f: "apply_move initial_board (2, 3) 1 = (True, \<lambda>c. if c = (2, 3) \<or> f c then 1 else initial_board c)" ..
  show ?thesis
    unfolding f using a legal_23 illegal_00 by simp
qed

text \<open>
  C9: on the fixed opening position the legal moves of black are exactly
  (2,3), (3,2), (4,5) and (5,4).
\<close>

theorem valid_moves_initial:
  "valid_moves (board initial_game) 1 = {(2, 3), (3, 2), (4, 5), (5, 4)}"
  by code_simp

theorem find_valid_moves_eq_valid_moves_witness:
  "find_valid_moves initial_board 1 = {(2, 3), (3, 2), (4, 5), (5, 4)}"
  unfolding find_valid_moves_eq_valid_moves by code_simp

lemma count_disks_card: "count_disks b v = card {c. inb c \<and> b c = v}"
proof -
  have "count_disks b v = (\<Sum>r\<in>{0..7}. \<Sum>c\<in>{0..7}. if b (r, c) = v then 1 else 0)"
    unfolding count_disks_def
    by (simp add: sum_list_distinct_conv_sum_set)
  also have "\<dots> = (\<Sum>rc\<in>{0..7} \<times> {0..7}. if b rc = v then 1 else 0)"
    by (simp add: sum.cartesian_product)
  also have "\<dots> = card {rc \<in> {0..7} \<times> {0..7}. b rc = v}"
    by (simp add: sum.If_cases Int_def)
  also have "{rc \<in> {0..7} \<times> {0..7}. b rc = v} = {c. inb c \<and> b c = v}"
    by (auto simp: inb_def)
  finally show ?thesis .
qed

lemma finite_inb: "finite {c. inb c \<and> P c}"
proof -
  have "{c. inb c \<and> P c} \<subseteq> {0..7} \<times> {0..7}" by (auto simp: inb_def)
  then show ?thesis by (rule finite_subset) simp
qed

lemma total_disks_card:
  "count_disks b 1 + count_disks b (- 1) = card {c. inb c \<and> (b c = 1 \<or> b c = - 1)}"
proof -
  have "{c. inb c \<and> (b c = 1 \<or> b c = - 1)} = {c. inb c \<and> b c = 1} \<union> {c. inb c \<and> b c = - 1}"
    by auto
  moreover have "{c. inb c \<and> b c = 1} \<inter> {c. inb c \<and> b c = - 1} = {}" by auto
  ultimately show ?thesis
    by (simp add: count_disks_card card_Un_disjoint finite_inb)
qed

lemma flipped_opponent: "flipped b p m c \<Longrightarrow> inb c \<and> b c = - p"
proof -
  assume "flipped b p m c"
  then obtain d n j where "bracket b p m d n" "1 \<le> j" "j \<le> n" "c = pos m d j"
    by (auto simp: flipped_def)
  then have "run b p (step d m) d n" "c = pos (step d m) d (j - 1)" "j - 1 < n"
    by (auto simp: bracket_def pos_step)
  then show ?thesis by (simp add: run_def)
qed

lemma legal_flips_one:
  assumes "m \<in> valid_moves b p"
  shows "\<exists>c. flipped b p m c"
proof -
  from assms obtain d n where "bracket b p m d n" by (auto simp: valid_moves_iff)
  then have "flipped b p m (pos m d 1)"
    unfolding flipped_def bracket_def by (intro exI[of _ d] exI[of _ n] exI[of _ 1]) simp
  then show ?thesis ..
qed

text \<open>
  C2: a legal move of black or white, applied with \<open>apply_move\<close>, turns at least one disk
  of the opponent into a disk of the player, and afterwards the number of disks of both
  colours together is the number before plus one. This holds on every board, reachable or
  not.
\<close>

theorem legal_move_flips_and_adds_one:
  assumes "player = 1 \<or> player = - 1" and "m \<in> valid_moves b player"
  shows "(\<exists>c. inb c \<and> b c = - player \<and> snd (apply_move b m player) c = player) \<and>
         count_disks (snd (apply_move b m player)) 1 + count_disks (snd (apply_move b m player)) (- 1)
           = count_disks b 1 + count_disks b (- 1) + 1"
proof -
  let ?b' = "\<lambda>c. if c = m \<or> flipped b player m c then player else b c"
  have ap: "snd (apply_move b m player) = ?b'"
    by (simp add: apply_move_legal[OF assms(2)])
  from assms(2) have m: "inb m" "b m = 0" by (simp_all add: valid_moves_iff)
  obtain c where c: "flipped b player m c" using legal_flips_one[OF assms(2)] ..
  have one: "\<exists>c. inb c \<and> b c = - player \<and> snd (apply_move b m player) c = player"
    unfolding ap using c flipped_opponent[OF c] by (intro exI[of _ c]) simp
  have "{c. inb c \<and> (?b' c = 1 \<or> ?b' c = - 1)} = insert m {c. inb c \<and> (b c = 1 \<or> b c = - 1)}"
    using assms(1) m flipped_opponent[of b player m] by auto
  moreover have "m \<notin> {c. inb c \<and> (b c = 1 \<or> b c = - 1)}" using m by simp
  ultimately have "card {c. inb c \<and> (?b' c = 1 \<or> ?b' c = - 1)} =
                   Suc (card {c. inb c \<and> (b c = 1 \<or> b c = - 1)})"
    by (simp add: finite_inb)
  then have "count_disks ?b' 1 + count_disks ?b' (- 1) = count_disks b 1 + count_disks b (- 1) + 1"
    by (simp only: total_disks_card)
  with one show ?thesis unfolding ap by blast
qed

theorem legal_move_flips_and_adds_one_witness:
  "(2, 3) \<in> valid_moves initial_board 1 \<and>
   count_disks initial_board 1 + count_disks initial_board (- 1) = 4 \<and>
   count_disks (snd (apply_move initial_board (2, 3) 1)) 1 +
   count_disks (snd (apply_move initial_board (2, 3) 1)) (- 1) = 5"
proof -
  have l: "(2, 3) \<in> valid_moves initial_board 1" by code_simp
  have c: "count_disks initial_board 1 + count_disks initial_board (- 1) = 4" by code_simp
  from legal_move_flips_and_adds_one[of 1 "(2, 3)" initial_board, OF _ l] c l
  show ?thesis by simp
qed

section \<open>Properties of the minimax search\<close>

declare minimax.simps [simp del] minimax_full.simps [simp del]

lemma score_less_simps [simp]:
  "\<not> x < NegInf" "\<not> PosInf < x" "NegInf < PosInf"
  "Fin a < Fin b \<longleftrightarrow> a < b" "NegInf < Fin a" "Fin a < PosInf"
  by (cases x; simp add: less_le)+

lemma score_le_simps [simp]:
  "x \<le> PosInf" "x \<le> NegInf \<longleftrightarrow> x = NegInf" "PosInf \<le> x \<longleftrightarrow> x = PosInf"
  by (cases x; simp)+

lemma bounds_max_step1:
  fixes a0 :: "'a::linorder"
  assumes "bounds a0 b me me'" "max a0 me < b" "bounds (max a0 me) b r v"
  shows "max me r \<le> a0 \<longrightarrow> max me' v \<le> max me r"
proof
  assume h: "max me r \<le> a0"
  then have "me \<le> a0" "r \<le> a0" by simp_all
  then have "max a0 me = a0" by (simp add: max_def)
  with assms(3) \<open>r \<le> a0\<close> have "v \<le> r" by (simp add: bounds_def)
  moreover from assms(1) \<open>me \<le> a0\<close> have "me' \<le> me" by (simp add: bounds_def)
  ultimately show "max me' v \<le> max me r" by (intro max.mono)
qed

lemma bounds_max_step2:
  fixes a0 :: "'a::linorder"
  assumes "bounds a0 b me me'" "max a0 me < b" "bounds (max a0 me) b r v"
  shows "b \<le> max me r \<longrightarrow> max me r \<le> max me' v"
proof
  assume h: "b \<le> max me r"
  from assms(2) have "me < b" by simp
  with h have "b \<le> r" "me \<le> r" by (auto simp: max_def split: if_splits)
  with assms(3) have "r \<le> v" by (simp add: bounds_def)
  with \<open>me \<le> r\<close> show "max me r \<le> max me' v" by (simp add: le_max_iff_disj)
qed

lemma bounds_max_step3:
  fixes a0 :: "'a::linorder"
  assumes "bounds a0 b me me'" "max a0 me < b" "bounds (max a0 me) b r v"
  shows "a0 < max me r \<and> max me r < b \<longrightarrow> max me r = max me' v"
proof
  assume h: "a0 < max me r \<and> max me r < b"
  then have rb: "r < b" "me < b" by simp_all
  show "max me r = max me' v"
  proof (cases "me \<le> a0")
    case True
    then have m: "max a0 me = a0" by (simp add: max_def)
    from True assms(1) have "me' \<le> me" by (simp add: bounds_def)
    from True h have "a0 < r" by (auto simp: max_def split: if_splits)
    with assms(3) m rb have "r = v" by (simp add: bounds_def)
    moreover from True \<open>a0 < r\<close> \<open>me' \<le> me\<close> have "me \<le> r" "me' \<le> r" by simp_all
    ultimately show ?thesis by (simp add: max_absorb2)
  next
    case False
    then have m: "max a0 me = me" "a0 < me" by (auto simp add: max_def)
    with assms(1) rb have e: "me' = me" by (simp add: bounds_def)
    show ?thesis
    proof (cases "r \<le> me")
      case True
      with assms(3) m have "v \<le> r" by (simp add: bounds_def)
      with True have "v \<le> me" by simp
      with True e show ?thesis by (simp add: max_absorb1)
    next
      case F: False
      with assms(3) m rb have "r = v" by (simp add: bounds_def)
      with e show ?thesis by simp
    qed
  qed
qed

lemma bounds_max_step:
  fixes a0 :: "'a::linorder"
  assumes "bounds a0 b me me'" "max a0 me < b" "bounds (max a0 me) b r v"
  shows "bounds a0 b (max me r) (max me' v)"
  using bounds_max_step1[OF assms] bounds_max_step2[OF assms] bounds_max_step3[OF assms]
  unfolding bounds_def by blast


lemma bounds_min_step1:
  fixes a :: "'a::linorder"
  assumes "bounds a b0 me me'" "a < min b0 me" "bounds a (min b0 me) r v"
  shows "min me r \<le> a \<longrightarrow> min me' v \<le> min me r"
proof
  assume h: "min me r \<le> a"
  from assms(2) have "a < me" by simp
  with h have "r \<le> a" "r \<le> me" by (auto simp: min_def split: if_splits)
  with assms(3) have "v \<le> r" by (simp add: bounds_def)
  with \<open>r \<le> me\<close> show "min me' v \<le> min me r" by (simp add: min_le_iff_disj)
qed

lemma bounds_min_step2:
  fixes a :: "'a::linorder"
  assumes "bounds a b0 me me'" "a < min b0 me" "bounds a (min b0 me) r v"
  shows "b0 \<le> min me r \<longrightarrow> min me r \<le> min me' v"
proof
  assume h: "b0 \<le> min me r"
  then have "b0 \<le> me" "b0 \<le> r" by simp_all
  then have "min b0 me = b0" by (simp add: min_def)
  with assms(3) \<open>b0 \<le> r\<close> have "r \<le> v" by (simp add: bounds_def)
  moreover from assms(1) \<open>b0 \<le> me\<close> have "me \<le> me'" by (simp add: bounds_def)
  ultimately show "min me r \<le> min me' v" by (intro min.mono)
qed

lemma bounds_min_step3:
  fixes a :: "'a::linorder"
  assumes "bounds a b0 me me'" "a < min b0 me" "bounds a (min b0 me) r v"
  shows "a < min me r \<and> min me r < b0 \<longrightarrow> min me r = min me' v"
proof
  assume h: "a < min me r \<and> min me r < b0"
  then have ar: "a < r" "a < me" by simp_all
  show "min me r = min me' v"
  proof (cases "b0 \<le> me")
    case True
    then have m: "min b0 me = b0" by (simp add: min_def)
    from True assms(1) have "me \<le> me'" by (simp add: bounds_def)
    from True h have "r < b0" by (auto simp: min_def split: if_splits)
    with assms(3) m ar have "r = v" by (simp add: bounds_def)
    moreover from True \<open>r < b0\<close> \<open>me \<le> me'\<close> have "r \<le> me" "r \<le> me'" by simp_all
    ultimately show ?thesis by (simp add: min_absorb2)
  next
    case False
    then have m: "min b0 me = me" "me < b0" by (auto simp add: min_def)
    with assms(1) ar have e: "me' = me" by (simp add: bounds_def)
    show ?thesis
    proof (cases "me \<le> r")
      case True
      with assms(3) m have "r \<le> v" by (simp add: bounds_def)
      with True have "me \<le> v" by simp
      with True e show ?thesis by (simp add: min_absorb1)
    next
      case F: False
      with assms(3) m ar have "r = v" by (simp add: bounds_def)
      with e show ?thesis by simp
    qed
  qed
qed

lemma bounds_min_step:
  fixes a :: "'a::linorder"
  assumes "bounds a b0 me me'" "a < min b0 me" "bounds a (min b0 me) r v"
  shows "bounds a b0 (min me r) (min me' v)"
  using bounds_min_step1[OF assms] bounds_min_step2[OF assms] bounds_min_step3[OF assms]
  unfolding bounds_def by blast

lemma bounds_max_break:
  fixes a0 :: "'a::linorder"
  assumes "max a0 me < b" "bounds (max a0 me) b r v" "b \<le> max (max a0 me) r" "max me' v \<le> V"
  shows "bounds a0 b (max me r) V"
proof -
  from assms(1,3) have br: "b \<le> r" by (auto simp: max_def split: if_splits)
  with assms(2) have "r \<le> v" by (simp add: bounds_def)
  with assms(4) have rV: "r \<le> V" by (meson max.bounded_iff order_trans)
  from assms(1) br have "me \<le> r" "a0 < r" by auto
  then have "max me r = r" by (simp add: max_absorb2)
  with rV br \<open>a0 < r\<close> show ?thesis by (auto simp: bounds_def)
qed

lemma bounds_min_break:
  fixes a :: "'a::linorder"
  assumes "a < min b0 me" "bounds a (min b0 me) r v" "min (min b0 me) r \<le> a" "V \<le> min me' v"
  shows "bounds a b0 (min me r) V"
proof -
  from assms(1,3) have ra: "r \<le> a" by (auto simp: min_def split: if_splits)
  with assms(2) have "v \<le> r" by (simp add: bounds_def)
  with assms(4) have rV: "V \<le> r" by (meson min.bounded_iff order_trans)
  from assms(1) ra have "r \<le> me" "r < b0" by auto
  then have "min me r = r" by (simp add: min_absorb2)
  with rV ra \<open>r < b0\<close> show ?thesis by (auto simp: bounds_def)
qed

lemma if_less_max: "(if me < r then r else me) = max me (r::'a::linorder)"
  by (auto simp add: max_def not_less)

lemma if_less_min: "(if r < me then r else me) = min me (r::'a::linorder)"
  by (auto simp add: min_def not_less)

lemma max_loop_full_ge:
  "me \<le> fst (max_loop_full to_list self g dep ms a b me bm)"
proof (induction ms arbitrary: a b me bm)
  case Nil
  then show ?case by simp
next
  case (Cons m ms)
  let ?v = "fst (minimax_full to_list self (apply_move_game (copy g) m (color self)) dep a b False)"
  have "max me ?v \<le> fst (max_loop_full to_list self g dep ms (max a ?v) b (max me ?v)
           (if ?v > me then Some m else bm))"
    by (rule Cons.IH)
  then show ?case
    by (simp add: Let_def if_less_max)
qed

lemma min_loop_full_le:
  "fst (min_loop_full to_list self g dep ms a b me bm) \<le> me"
proof (induction ms arbitrary: a b me bm)
  case Nil
  then show ?case by simp
next
  case (Cons m ms)
  let ?v = "fst (minimax_full to_list self (apply_move_game (copy g) m (- color self)) dep a b True)"
  have "fst (min_loop_full to_list self g dep ms a (min b ?v) (min me ?v)
           (if ?v < me then Some m else bm)) \<le> min me ?v"
    by (rule Cons.IH)
  then show ?case
    by (simp add: Let_def if_less_min)
qed

lemma bounds_refl: "bounds a b r r"
  by (simp add: bounds_def)

lemma pruned_bounds:
  "(alpha < beta \<longrightarrow> (\<forall>a' b'. bounds alpha beta
       (fst (minimax to_list self g dep alpha beta maximizing))
       (fst (minimax_full to_list self g dep a' b' maximizing))))"
  "(\<forall>a0 me' a' b' bm'. alpha = max a0 max_eval \<and> alpha < beta \<and> bounds a0 beta max_eval me' \<longrightarrow>
       bounds a0 beta
         (fst (max_loop to_list self g dep ms alpha beta max_eval best_move))
         (fst (max_loop_full to_list self g dep ms a' b' me' bm')))"
  "(\<forall>b0 me' a' b' bm'. beta = min b0 min_eval \<and> alpha < beta \<and> bounds alpha b0 min_eval me' \<longrightarrow>
       bounds alpha b0
         (fst (min_loop to_list self g dep ms alpha beta min_eval best_move))
         (fst (min_loop_full to_list self g dep ms a' b' me' bm')))"
proof (induction to_list self g dep alpha beta maximizing
         and to_list self g dep ms alpha beta max_eval best_move
         and to_list self g dep ms alpha beta min_eval best_move
       rule: minimax_max_loop_min_loop.induct)
  case (1 to_list self g dep alpha beta maximizing)
  show ?case
  proof (intro impI allI)
    fix a' b' assume ab: "alpha < beta"
    show "bounds alpha beta (fst (minimax to_list self g dep alpha beta maximizing))
           (fst (minimax_full to_list self g dep a' b' maximizing))"
    proof (cases "dep = 0 \<or> is_game_over (board g)")
      case True
      then show ?thesis
        by (subst minimax.simps, subst minimax_full.simps) (simp add: bounds_refl)
    next
      case nt: False
      show ?thesis
      proof (cases "to_list (valid_moves (board g) (if maximizing then color self else - color self)) = []")
        case True
        have "bounds alpha beta (fst (minimax to_list self g (dep - 1) alpha beta (\<not> maximizing)))
           (fst (minimax_full to_list self g (dep - 1) a' b' (\<not> maximizing)))"
          using "1.IH"(1)[OF nt True] ab by blast
        with nt True show ?thesis
          by (subst minimax.simps, subst minimax_full.simps) simp
      next
        case ne: False
        show ?thesis
        proof (cases maximizing)
          case True
          have "bounds alpha beta
             (fst (max_loop to_list self g (dep - 1) (to_list (valid_moves (board g) (color self)))
                     alpha beta NegInf None))
             (fst (max_loop_full to_list self g (dep - 1) (to_list (valid_moves (board g) (color self)))
                     a' b' NegInf None))"
            using "1.IH"(2)[OF nt ne True] ab
            by (simp add: bounds_refl max_absorb1)
          with nt ne True show ?thesis
            by (subst minimax.simps, subst minimax_full.simps) simp
        next
          case False
          have "bounds alpha beta
             (fst (min_loop to_list self g (dep - 1) (to_list (valid_moves (board g) (- color self)))
                     alpha beta PosInf None))
             (fst (min_loop_full to_list self g (dep - 1) (to_list (valid_moves (board g) (- color self)))
                     a' b' PosInf None))"
            using "1.IH"(3)[OF nt ne False] ab
            by (simp add: bounds_refl min_absorb1)
          with nt ne False show ?thesis
            by (subst minimax.simps, subst minimax_full.simps) simp
        qed
      qed
    qed
  qed
next
  case (2 to_list self g dep alpha beta max_eval best_move)
  then show ?case by simp
next
  case (3 to_list self g dep move rest alpha beta max_eval best_move)
  show ?case
  proof (intro allI impI, elim conjE)
    fix a0 me' a' b' bm'
    assume al: "alpha = max a0 max_eval" and ab: "alpha < beta" and bd: "bounds a0 beta max_eval me'"
    let ?child = "apply_move_game (copy g) move (color self)"
    let ?e = "fst (minimax to_list self ?child dep alpha beta False)"
    let ?v = "fst (minimax_full to_list self ?child dep a' b' False)"
    let ?V = "fst (max_loop_full to_list self g dep (move # rest) a' b' me' bm')"
    have ev: "bounds alpha beta ?e ?v"
      using "3.IH"(1) ab by blast
    have Vdef: "?V = fst (max_loop_full to_list self g dep rest (max a' ?v) b' (max me' ?v)
                        (if ?v > me' then Some move else bm'))"
      by (simp add: Let_def if_less_max)
    show "bounds a0 beta (fst (max_loop to_list self g dep (move # rest) alpha beta max_eval best_move)) ?V"
    proof (cases "beta \<le> max alpha ?e")
      case True
      then have r: "fst (max_loop to_list self g dep (move # rest) alpha beta max_eval best_move)
                    = max max_eval ?e"
        by (simp add: Let_def if_less_max[symmetric])
      have "max me' ?v \<le> ?V"
        unfolding Vdef by (rule max_loop_full_ge)
      then show ?thesis
        unfolding r using ab ev True unfolding al by (intro bounds_max_break)
    next
      case False
      then have r: "fst (max_loop to_list self g dep (move # rest) alpha beta max_eval best_move)
          = fst (max_loop to_list self g dep rest (max alpha ?e) beta (max max_eval ?e)
                   (if ?e > max_eval then Some move else best_move))"
        by (simp add: Let_def if_less_max)
      have st: "bounds a0 beta (max max_eval ?e) (max me' ?v)"
        using bd ab ev unfolding al by (intro bounds_max_step)
      have "bounds a0 beta
          (fst (max_loop to_list self g dep rest (max alpha ?e) beta
                   (if ?e > max_eval then ?e else max_eval)
                   (if ?e > max_eval then Some move else best_move)))
          (fst (max_loop_full to_list self g dep rest (max a' ?v) b' (max me' ?v)
                        (if ?v > me' then Some move else bm')))"
        using "3.IH"(2)[OF refl False] st False unfolding al
        by (simp add: if_less_max max.assoc not_le)
      then show ?thesis
        unfolding r Vdef by (simp add: if_less_max)
    qed
  qed
next
  case (4 to_list self g dep alpha beta min_eval best_move)
  then show ?case by simp
next
  case (5 to_list self g dep move rest alpha beta min_eval best_move)
  show ?case
  proof (intro allI impI, elim conjE)
    fix b0 me' a' b' bm'
    assume be: "beta = min b0 min_eval" and ab: "alpha < beta" and bd: "bounds alpha b0 min_eval me'"
    let ?child = "apply_move_game (copy g) move (- color self)"
    let ?e = "fst (minimax to_list self ?child dep alpha beta True)"
    let ?v = "fst (minimax_full to_list self ?child dep a' b' True)"
    let ?V = "fst (min_loop_full to_list self g dep (move # rest) a' b' me' bm')"
    have ev: "bounds alpha beta ?e ?v"
      using "5.IH"(1) ab by blast
    have Vdef: "?V = fst (min_loop_full to_list self g dep rest a' (min b' ?v) (min me' ?v)
                        (if ?v < me' then Some move else bm'))"
      by (simp add: Let_def if_less_min)
    show "bounds alpha b0 (fst (min_loop to_list self g dep (move # rest) alpha beta min_eval best_move)) ?V"
    proof (cases "min beta ?e \<le> alpha")
      case True
      then have r: "fst (min_loop to_list self g dep (move # rest) alpha beta min_eval best_move)
                    = min min_eval ?e"
        by (simp add: Let_def if_less_min[symmetric])
      have "?V \<le> min me' ?v"
        unfolding Vdef by (rule min_loop_full_le)
      then show ?thesis
        unfolding r using ab ev True unfolding be by (intro bounds_min_break)
    next
      case False
      then have r: "fst (min_loop to_list self g dep (move # rest) alpha beta min_eval best_move)
          = fst (min_loop to_list self g dep rest alpha (min beta ?e) (min min_eval ?e)
                   (if ?e < min_eval then Some move else best_move))"
        by (simp add: Let_def if_less_min)
      have st: "bounds alpha b0 (min min_eval ?e) (min me' ?v)"
        using bd ab ev unfolding be by (intro bounds_min_step)
      have "bounds alpha b0
          (fst (min_loop to_list self g dep rest alpha (min beta ?e)
                   (if ?e < min_eval then ?e else min_eval)
                   (if ?e < min_eval then Some move else best_move)))
          (fst (min_loop_full to_list self g dep rest a' (min b' ?v) (min me' ?v)
                        (if ?v < me' then Some move else bm')))"
        using "5.IH"(2)[OF refl False] st False unfolding be
        by (simp add: if_less_min min.assoc not_le)
      then show ?thesis
        unfolding r Vdef by (simp add: if_less_min)
    qed
  qed
qed

lemma sorted_list_of_set_is_list_of: "is_list_of sorted_list_of_set"
  by (simp add: is_list_of_def)

text \<open>
  C3: started with the window from minus infinity to plus infinity, the search with
  alpha-beta pruning returns the same score as the same search without the two
  \<open>break\<close> statements, for every game, depth, evaluator, colour and order of the moves.
\<close>

theorem pruning_keeps_score:
  "fst (minimax to_list self g dep NegInf PosInf maximizing) =
   fst (minimax_full to_list self g dep NegInf PosInf maximizing)"
proof -
  let ?r = "fst (minimax to_list self g dep NegInf PosInf maximizing)"
  let ?v = "fst (minimax_full to_list self g dep NegInf PosInf maximizing)"
  have b: "bounds NegInf PosInf ?r ?v"
    using pruned_bounds(1)[of NegInf PosInf to_list self g dep maximizing] by simp
  show ?thesis
  proof (cases ?r)
    case NegInf
    with b show ?thesis by (simp add: bounds_def)
  next
    case (Fin x)
    with b show ?thesis by (simp add: bounds_def)
  next
    case PosInf
    with b show ?thesis by (simp add: bounds_def)
  qed
qed

theorem pruning_keeps_score_witness:
  "fst (minimax_full sorted_list_of_set (coin_player 3) initial_game 3 NegInf PosInf True) = Fin (300 / 7)"
  unfolding pruning_keeps_score [symmetric] by code_simp

text \<open>
  C5: at depth greater than zero in a position that is not over, when the side to act
  (the agent's colour when maximizing, the opponent otherwise) has no legal move, the
  result of \<open>minimax\<close> is the score of the call on the same game with the depth one lower
  and the maximizing flag flipped, together with no move.
\<close>

theorem minimax_forced_pass:
  assumes "is_list_of to_list" and "0 < dep" and "\<not> is_game_over (board g)"
    and "valid_moves (board g) (if maximizing then color self else - color self) = {}"
  shows "minimax to_list self g dep alpha beta maximizing =
         (fst (minimax to_list self g (dep - 1) alpha beta (\<not> maximizing)), None)"
proof -
  have "set (to_list {}) = {}"
    using assms(1) unfolding is_list_of_def by blast
  then have "to_list (valid_moves (board g) (if maximizing then color self else - color self)) = []"
    using assms(4) by simp
  with assms(2,3) show ?thesis
    by (subst minimax.simps) simp
qed

theorem minimax_forced_pass_witness:
  "is_list_of sorted_list_of_set \<and> \<not> is_game_over (board pass_game) \<and>
   valid_moves (board pass_game) (color (coin_player 2)) = {} \<and>
   minimax sorted_list_of_set (coin_player 2) pass_game 2 NegInf PosInf True =
     (fst (minimax sorted_list_of_set (coin_player 2) pass_game 1 NegInf PosInf False), None)"
proof -
  have a: "\<not> is_game_over (board pass_game)" by code_simp
  have b: "valid_moves (board pass_game) (if True then color (coin_player 2) else - color (coin_player 2)) = {}"
    by code_simp
  from minimax_forced_pass[OF sorted_list_of_set_is_list_of _ a b, of 2 NegInf PosInf]
  show ?thesis using a b sorted_list_of_set_is_list_of by simp
qed

section \<open>Properties of the evaluators\<close>

lemma no_empty_neighbour_list_all:
  "no_empty_neighbour b rc ds = list_all (\<lambda>d. \<not> (inb (step d rc) \<and> b (step d rc) = 0)) ds"
  by (induction ds) auto

lemma sum_list_indicator:
  "sum_list (map (\<lambda>x. if P x then 1 else 0) xs) = length (filter P xs)"
  by (induction xs) auto

lemma nested_count:
  "sum_list (map (\<lambda>r. sum_list (map (\<lambda>c. if P (r, c) then 1 else 0) cs)) rs) =
   length (filter P (concat (map (\<lambda>r. map (\<lambda>c. (r, c)) cs) rs)))"
  by (induction rs) (simp_all add: sum_list_indicator filter_map comp_def)

lemma find_stable_disks_spec: "find_stable_disks b p = spec_stable_count b p"
  unfolding find_stable_disks_def spec_stable_count_def all_cells_def
    no_empty_neighbour_list_all
  by (rule nested_count)

text \<open>
  C6: on the position after black's first move (2,3), evaluated for black, the source
  gives -40/3 and the formula of the claim gives -20. The stable counts agree (both are
  zero here, and \<open>find_stable_disks_spec\<close> shows that they always agree); the unstable
  counts differ: \<open>find_unstable_disks\<close> adds one for every pair of a legal move of the
  other side and a neighbouring disk, so a disk next to two such moves counts twice
  (7 against 4 disks for black, 3 against 1 disk for white).
\<close>

theorem stability_heuristic_counts_pairs:
  "stability_heuristic after_23 1 = - 40 / 3 \<and> spec_stability after_23 1 = - 20 \<and>
   find_unstable_disks (board after_23) 1 (valid_moves (board after_23) (- 1)) = 7 \<and>
   spec_unstable_count (board after_23) 1 = 4 \<and>
   find_unstable_disks (board after_23) (- 1) (valid_moves (board after_23) 1) = 3 \<and>
   spec_unstable_count (board after_23) (- 1) = 1"
  by code_simp

section \<open>Properties of the tree search keys\<close>

lemma row_eq_iff:
  "map f [0..7] = map g [0..7] \<longleftrightarrow> (\<forall>c::int. 0 \<le> c \<and> c < 8 \<longrightarrow> f c = g c)"
  by (auto simp: le7)

text \<open>
  C8: the key of a game state in the statistics tree is determined by the 64 cells of the
  grid and by nothing else: two states have the same key exactly when their grids agree
  cell for cell, whatever their sides to move are.
\<close>

theorem node_key_grid_only:
  "get_node_key g1 = get_node_key g2 \<longleftrightarrow> (\<forall>rc. inb rc \<longrightarrow> board g1 rc = board g2 rc)"
  unfolding get_node_key_def row_eq_iff inb_def by auto

theorem node_key_grid_only_witness:
  "current_player initial_game \<noteq> current_player (initial_game\<lparr>current_player := - 1\<rparr>) \<and>
   get_node_key initial_game = get_node_key (initial_game\<lparr>current_player := - 1\<rparr>)"
  unfolding node_key_grid_only by (simp add: initial_game_def)

section \<open>Properties of the store\<close>

declare minimax_obj.simps [simp del]

lemma unchanged_refl [simp]: "unchanged s s"
  by (simp add: unchanged_def)

lemma unchanged_trans:
  assumes "unchanged s s'" "unchanged s' s''"
  shows "unchanged s s''"
proof -
  have 1: "n_arrays s \<le> n_arrays s''" "n_objects s \<le> n_objects s''"
    using assms by (auto simp: unchanged_def)
  have 2: "arrays s'' a = arrays s a" if "a < n_arrays s" for a
  proof -
    from that assms(1) have "a < n_arrays s'" by (simp add: unchanged_def)
    with assms that show ?thesis by (simp add: unchanged_def)
  qed
  have 3: "board_of s'' obj = board_of s obj \<and> player_of s'' obj = player_of s obj"
    if "obj < n_objects s" for obj
  proof -
    from that assms(1) have "obj < n_objects s'" by (simp add: unchanged_def)
    with assms that show ?thesis by (simp add: unchanged_def)
  qed
  from 1 2 3 show ?thesis by (simp add: unchanged_def)
qed

lemma unchanged_game_of:
  assumes "unchanged s s'" "obj < n_objects s" "board_of s obj < n_arrays s"
  shows "game_of s' obj = game_of s obj"
  using assms by (simp add: unchanged_def game_of_def)

text \<open>What \<open>copy\<close> returns: the next object, with two new arrays, the second one its board.\<close>

lemma copy_obj_eq:
  "copy_obj s self =
     (n_objects s,
      s\<lparr>arrays := (arrays s)(n_arrays s := initial_board,
                              Suc (n_arrays s) := ((arrays s)(n_arrays s := initial_board))
                                 (((board_of s)(n_objects s := n_arrays s)) self)),
         n_arrays := Suc (Suc (n_arrays s)),
         board_of := (board_of s)(n_objects s := Suc (n_arrays s)),
         player_of := (player_of s)(n_objects s := ((player_of s)(n_objects s := 1)) self),
         n_objects := Suc (n_objects s)\<rparr>)"
  by (simp add: copy_obj_def othello_init_def new_array_def Let_def)

lemma copy_obj_unchanged: "copy_obj s self = (new_game, s1) \<Longrightarrow> unchanged s s1"
  by (auto simp: copy_obj_eq unchanged_def)

lemma copy_obj_fresh:
  "copy_obj s self = (new_game, s1) \<Longrightarrow>
     new_game = n_objects s \<and> new_game < n_objects s1 \<and>
     n_arrays s \<le> board_of s1 new_game \<and> board_of s1 new_game < n_arrays s1"
  by (auto simp: copy_obj_eq)

lemma copy_obj_game:
  assumes "copy_obj s self = (new_game, s1)" "self < n_objects s" "board_of s self < n_arrays s"
  shows "game_of s1 new_game = game_of s self"
  using assms by (auto simp: copy_obj_eq game_of_def)

lemma copy_obj_wf: "copy_obj s self = (new_game, s1) \<Longrightarrow> wf_store s \<Longrightarrow> wf_store s1"
  by (auto simp: copy_obj_eq wf_store_def less_Suc_eq)

lemma apply_move_obj_eq:
  "apply_move_obj s self move player =
     (fst (apply_move (arrays s (board_of s self)) move player),
      s\<lparr>arrays := (arrays s)(board_of s self := snd (apply_move (arrays s (board_of s self)) move player))\<rparr>)"
  by (simp add: apply_move_obj_def split: prod.splits)

lemma apply_move_obj_fresh:
  assumes "apply_move_obj s1 obj move player = (ok, s2)" "unchanged s s1"
    "n_arrays s \<le> board_of s1 obj"
  shows "unchanged s s2"
  using assms by (auto simp: apply_move_obj_eq unchanged_def)

lemma apply_move_obj_wf: "apply_move_obj s self move player = (ok, s2) \<Longrightarrow> wf_store s \<Longrightarrow> wf_store s2"
  by (auto simp: apply_move_obj_eq wf_store_def)

lemma apply_move_obj_sizes:
  "apply_move_obj s self move player = (ok, s2) \<Longrightarrow>
     n_objects s2 = n_objects s \<and> n_arrays s2 = n_arrays s \<and> board_of s2 = board_of s"
  by (auto simp: apply_move_obj_eq)

lemma apply_move_obj_game:
  "apply_move_obj s self move player = (ok, s2) \<Longrightarrow>
     game_of s2 self = apply_move_game (game_of s self) move player"
  by (auto simp: apply_move_obj_eq game_of_def apply_move_game_def)

lemma copy_game_of [simp]: "copy (game_of s obj) = game_of s obj"
  by (simp add: copy_def game_of_def)

text \<open>A copy followed by a move on the copy leaves the store as it was.\<close>

lemma copy_apply_unchanged:
  assumes "copy_obj s game = (new_game, s1)" "apply_move_obj s1 new_game move player = (ok, s2)"
  shows "unchanged s s2"
  using apply_move_obj_fresh[OF assms(2) copy_obj_unchanged[OF assms(1)]] copy_obj_fresh[OF assms(1)]
  by blast

lemma minimax_obj_unchanged:
  "unchanged s (snd (minimax_obj to_list self s game dep alpha beta maximizing))"
  "unchanged s (snd (max_loop_obj to_list self s game dep ms alpha beta max_eval best_move))"
  "unchanged s (snd (min_loop_obj to_list self s game dep ms alpha beta min_eval best_move))"
proof (induction to_list self s game dep alpha beta maximizing
         and to_list self s game dep ms alpha beta max_eval best_move
         and to_list self s game dep ms alpha beta min_eval best_move
       rule: minimax_obj_max_loop_obj_min_loop_obj.induct)
  case (1 to_list self s game dep alpha beta maximizing)
  show ?case
    using 1 by (subst minimax_obj.simps) (auto split: prod.splits)
next
  case (2 to_list self s game dep alpha beta max_eval best_move)
  then show ?case by simp
next
  case (3 to_list self s game dep move rest alpha beta max_eval best_move)
  obtain new_game s1 where c: "copy_obj s game = (new_game, s1)" by fastforce
  obtain ok s2 where a: "apply_move_obj s1 new_game move (color self) = (ok, s2)" by fastforce
  obtain r s3 where m: "minimax_obj to_list self s2 new_game dep alpha beta False = (r, s3)"
    by fastforce
  have u2: "unchanged s s2" using copy_apply_unchanged[OF c a] .
  have u3: "unchanged s2 s3" using "3.IH"(1)[OF c[symmetric] a[symmetric]] m by simp
  have u: "unchanged s s3" using unchanged_trans[OF u2 u3] .
  show ?case
  proof (cases "beta \<le> max alpha (fst r)")
    case True
    then show ?thesis using c a m u by simp
  next
    case False
    have "unchanged s3 (snd (max_loop_obj to_list self s3 game dep rest (max alpha (fst r)) beta
                (if fst r > max_eval then fst r else max_eval)
                (if fst r > max_eval then Some move else best_move)))"
      using "3.IH"(2)[OF c[symmetric] a[symmetric] m[symmetric] False] .
    with u have "unchanged s (snd (max_loop_obj to_list self s3 game dep rest (max alpha (fst r)) beta
                (if fst r > max_eval then fst r else max_eval)
                (if fst r > max_eval then Some move else best_move)))"
      by (rule unchanged_trans)
    then show ?thesis using c a m False by simp
  qed
next
  case (4 to_list self s game dep alpha beta min_eval best_move)
  then show ?case by simp
next
  case (5 to_list self s game dep move rest alpha beta min_eval best_move)
  obtain new_game s1 where c: "copy_obj s game = (new_game, s1)" by fastforce
  obtain ok s2 where a: "apply_move_obj s1 new_game move (- color self) = (ok, s2)" by fastforce
  obtain r s3 where m: "minimax_obj to_list self s2 new_game dep alpha beta True = (r, s3)"
    by fastforce
  have u2: "unchanged s s2" using copy_apply_unchanged[OF c a] .
  have u3: "unchanged s2 s3" using "5.IH"(1)[OF c[symmetric] a[symmetric]] m by simp
  have u: "unchanged s s3" using unchanged_trans[OF u2 u3] .
  show ?case
  proof (cases "min beta (fst r) \<le> alpha")
    case True
    then show ?thesis using c a m u by simp
  next
    case False
    have "unchanged s3 (snd (min_loop_obj to_list self s3 game dep rest alpha (min beta (fst r))
                (if fst r < min_eval then fst r else min_eval)
                (if fst r < min_eval then Some move else best_move)))"
      using "5.IH"(2)[OF c[symmetric] a[symmetric] m[symmetric] False] .
    with u have "unchanged s (snd (min_loop_obj to_list self s3 game dep rest alpha (min beta (fst r))
                (if fst r < min_eval then fst r else min_eval)
                (if fst r < min_eval then Some move else best_move)))"
      by (rule unchanged_trans)
    then show ?thesis using c a m False by simp
  qed
qed

lemma wf_board: "wf_store s \<Longrightarrow> obj < n_objects s \<Longrightarrow> board_of s obj < n_arrays s"
  by (simp add: wf_store_def)

lemma unchanged_obj_less: "unchanged s s' \<Longrightarrow> obj < n_objects s \<Longrightarrow> obj < n_objects s'"
  by (simp add: unchanged_def)

text \<open>
  The search on objects computes what the search on games computes, and keeps the store
  well formed.
\<close>

lemma minimax_obj_refines:
  "wf_store s \<and> game < n_objects s \<longrightarrow>
     fst (minimax_obj to_list self s game dep alpha beta maximizing) =
       minimax to_list self (game_of s game) dep alpha beta maximizing \<and>
     wf_store (snd (minimax_obj to_list self s game dep alpha beta maximizing))"
  "wf_store s \<and> game < n_objects s \<longrightarrow>
     fst (max_loop_obj to_list self s game dep ms alpha beta max_eval best_move) =
       max_loop to_list self (game_of s game) dep ms alpha beta max_eval best_move \<and>
     wf_store (snd (max_loop_obj to_list self s game dep ms alpha beta max_eval best_move))"
  "wf_store s \<and> game < n_objects s \<longrightarrow>
     fst (min_loop_obj to_list self s game dep ms alpha beta min_eval best_move) =
       min_loop to_list self (game_of s game) dep ms alpha beta min_eval best_move \<and>
     wf_store (snd (min_loop_obj to_list self s game dep ms alpha beta min_eval best_move))"
proof (induction to_list self s game dep alpha beta maximizing
         and to_list self s game dep ms alpha beta max_eval best_move
         and to_list self s game dep ms alpha beta min_eval best_move
       rule: minimax_obj_max_loop_obj_min_loop_obj.induct)
  case (1 to_list self s game dep alpha beta maximizing)
  show ?case
  proof (intro impI)
    assume h: "wf_store s \<and> game < n_objects s"
    show "fst (minimax_obj to_list self s game dep alpha beta maximizing) =
       minimax to_list self (game_of s game) dep alpha beta maximizing \<and>
       wf_store (snd (minimax_obj to_list self s game dep alpha beta maximizing))"
      using 1 h
      by (subst minimax_obj.simps, subst minimax.simps, subst (2) minimax_obj.simps)
         (auto split: prod.splits, (metis fst_conv)+)
  qed
next
  case (2 to_list self s game dep alpha beta max_eval best_move)
  then show ?case by simp
next
  case (3 to_list self s game dep move rest alpha beta max_eval best_move)
  show ?case
  proof (intro impI)
    assume h: "wf_store s \<and> game < n_objects s"
    obtain new_game s1 where c: "copy_obj s game = (new_game, s1)" by fastforce
    obtain ok s2 where a: "apply_move_obj s1 new_game move (color self) = (ok, s2)" by fastforce
    obtain r s3 where m: "minimax_obj to_list self s2 new_game dep alpha beta False = (r, s3)"
      by fastforce
    have wf2: "wf_store s2" using h copy_obj_wf[OF c] apply_move_obj_wf[OF a] by blast
    have n2: "new_game < n_objects s2"
      using copy_obj_fresh[OF c] apply_move_obj_sizes[OF a] by simp
    have g2: "game_of s2 new_game = apply_move_game (copy (game_of s game)) move (color self)"
      using apply_move_obj_game[OF a] copy_obj_game[OF c] h wf_board[of s game] by simp
    have ih1: "r = minimax to_list self (game_of s2 new_game) dep alpha beta False" "wf_store s3"
      using "3.IH"(1)[OF c[symmetric] a[symmetric]] wf2 n2 m by simp_all
    have u3: "unchanged s s3"
      using unchanged_trans[OF copy_apply_unchanged[OF c a]] minimax_obj_unchanged(1)[of s2 to_list self new_game dep alpha beta False] m
      by simp
    have g3: "game_of s3 game = game_of s game" "game < n_objects s3"
      using unchanged_game_of[OF u3] unchanged_obj_less[OF u3] h wf_board[of s game] by simp_all
    let ?e = "fst r"
    have e: "?e = fst (minimax to_list self (apply_move_game (copy (game_of s game)) move (color self))
                        dep alpha beta False)"
      using ih1(1) g2 by simp
    show "fst (max_loop_obj to_list self s game dep (move # rest) alpha beta max_eval best_move) =
       max_loop to_list self (game_of s game) dep (move # rest) alpha beta max_eval best_move \<and>
       wf_store (snd (max_loop_obj to_list self s game dep (move # rest) alpha beta max_eval best_move))"
    proof (cases "beta \<le> max alpha ?e")
      case True
      then show ?thesis using c a m ih1(2) e by (simp add: Let_def)
    next
      case False
      from "3.IH"(2)[OF c[symmetric] a[symmetric] m[symmetric] False] ih1(2) g3
      show ?thesis using c a m False e by (simp add: Let_def)
    qed
  qed
next
  case (4 to_list self s game dep alpha beta min_eval best_move)
  then show ?case by simp
next
  case (5 to_list self s game dep move rest alpha beta min_eval best_move)
  show ?case
  proof (intro impI)
    assume h: "wf_store s \<and> game < n_objects s"
    obtain new_game s1 where c: "copy_obj s game = (new_game, s1)" by fastforce
    obtain ok s2 where a: "apply_move_obj s1 new_game move (- color self) = (ok, s2)" by fastforce
    obtain r s3 where m: "minimax_obj to_list self s2 new_game dep alpha beta True = (r, s3)"
      by fastforce
    have wf2: "wf_store s2" using h copy_obj_wf[OF c] apply_move_obj_wf[OF a] by blast
    have n2: "new_game < n_objects s2"
      using copy_obj_fresh[OF c] apply_move_obj_sizes[OF a] by simp
    have g2: "game_of s2 new_game = apply_move_game (copy (game_of s game)) move (- color self)"
      using apply_move_obj_game[OF a] copy_obj_game[OF c] h wf_board[of s game] by simp
    have ih1: "r = minimax to_list self (game_of s2 new_game) dep alpha beta True" "wf_store s3"
      using "5.IH"(1)[OF c[symmetric] a[symmetric]] wf2 n2 m by simp_all
    have u3: "unchanged s s3"
      using unchanged_trans[OF copy_apply_unchanged[OF c a]] minimax_obj_unchanged(1)[of s2 to_list self new_game dep alpha beta True] m
      by simp
    have g3: "game_of s3 game = game_of s game" "game < n_objects s3"
      using unchanged_game_of[OF u3] unchanged_obj_less[OF u3] h wf_board[of s game] by simp_all
    let ?e = "fst r"
    have e: "?e = fst (minimax to_list self (apply_move_game (copy (game_of s game)) move (- color self))
                        dep alpha beta True)"
      using ih1(1) g2 by simp
    show "fst (min_loop_obj to_list self s game dep (move # rest) alpha beta min_eval best_move) =
       min_loop to_list self (game_of s game) dep (move # rest) alpha beta min_eval best_move \<and>
       wf_store (snd (min_loop_obj to_list self s game dep (move # rest) alpha beta min_eval best_move))"
    proof (cases "min beta ?e \<le> alpha")
      case True
      then show ?thesis using c a m ih1(2) e by (simp add: Let_def)
    next
      case False
      from "5.IH"(2)[OF c[symmetric] a[symmetric] m[symmetric] False] ih1(2) g3
      show ?thesis using c a m False e by (simp add: Let_def)
    qed
  qed
qed

lemma get_move_obj_refines:
  assumes "wf_store s" "game < n_objects s"
  shows "fst (get_move_obj to_list self s game) = get_move to_list self (game_of s game)"
  using minimax_obj_refines(1)[of s game to_list self "depth self" NegInf PosInf True] assms
  by (auto simp add: get_move_obj_def get_move_def split: prod.splits) (metis snd_conv)

section \<open>The tree search leaves the objects of the caller alone\<close>


lemma heap_set_heap [simp]: "heap (set_heap w s) = s"
  by (simp add: set_heap_def)

lemma mcts_set_heap [simp]: "mcts (set_heap w s) = mcts w"
  by (simp add: set_heap_def)

lemma rnd_set_heap [simp]: "rnd (set_heap w s) = rnd w"
  by (simp add: set_heap_def)

lemma heap_node_get [simp]: "heap (snd (node_get w k)) = heap w"
  unfolding node_get_def by (cases "node_info (mcts w) k") simp_all

lemma heap_node_set [simp]: "heap (node_set w k f) = heap w"
proof -
  obtain n w1 where g: "node_get w k = (n, w1)" by fastforce
  with heap_node_get[of w k] have "heap w1 = heap w" by simp
  then show ?thesis by (simp add: node_set_def g)
qed

lemma heap_children_get [simp]: "heap (snd (children_get w k)) = heap w"
  unfolding children_get_def by (cases "map_of (children (mcts w)) k") simp_all

lemma heap_children_append [simp]: "heap (children_append w k c) = heap w"
proof -
  obtain cs w1 where g: "children_get w k = (cs, w1)" by fastforce
  with heap_children_get[of w k] have "heap w1 = heap w" by simp
  then show ?thesis by (simp add: children_append_def g)
qed



lemma flip_player_same [simp]:
  "board_of (flip_player s obj) = board_of s" "n_arrays (flip_player s obj) = n_arrays s"
  "n_objects (flip_player s obj) = n_objects s" "arrays (flip_player s obj) = arrays s"
  by (simp_all add: flip_player_def)









lemma heap_init_node [simp]: "heap (init_node to_list w g k) = heap w"
proof -
  obtain info w1 where g1: "node_get w k = (info, w1)" by fastforce
  then have "heap w1 = heap w" using heap_node_get[of w k] by simp
  then show ?thesis by (simp add: init_node_def g1)
qed
















end
